theory Spec2Isabelle
  imports Main "HOL-Library.Word"
begin

unbundle bit_operations_syntax

section \<open>Bytes, numbers and errors\<close>

text \<open>
  A buffer is a list of bytes. The numbers the parsers compute with are integers, which
  JavaScript adds, multiplies and compares exactly below 2^53; they are \<open>int\<close> here.
  A thrown \<open>Error\<close> is a value of \<open>error\<close>; a parser returns \<open>error + result\<close>.
  \<open>TypeError\<close> is what reading a property of \<open>undefined\<close> throws.
\<close>

type_synonym byte = "8 word"

datatype endian = ENDIAN_LITTLE | ENDIAN_BIG

datatype error =
    BufferUnderrun
  | CorruptArchiveIndex
  | RootNoLocale
  | RootInvalidContentFlag
  | TypeError

subsection \<open>bytey.byteArrayToHexString\<close>

text \<open>
  Modelled from the spec: the hex helper of the external package \<open>bytey\<close>
  ("canonical lowercase hex strings over the raw fixed-width bytes"): two lowercase
  hexadecimal digits per byte, in order.
\<close>

definition hex_digit :: "nat \<Rightarrow> char" where
  "hex_digit n = ''0123456789abcdef'' ! n"

definition byteToHex :: "byte \<Rightarrow> string" where
  "byteToHex b = [hex_digit (unat b div 16), hex_digit (unat b mod 16)]"

definition byteArrayToHexString :: "byte list \<Rightarrow> string" where
  "byteArrayToHexString bs = concat (map byteToHex bs)"

subsection \<open>The Bufo cursor\<close>

text \<open>
  Modelled from the spec: the cursor class of the external package \<open>bufo\<close>
  (the spec's ByteCursor: "sequential/random-access reads of fixed-width big/little-endian
  integers and raw byte spans from an in-memory buffer, with absolute/relative seek and
  bounds checking"). A cursor holds the bytes, the read position and the byte order used
  by a read that names none. A read that runs past the end of the buffer is
  \<open>BufferUnderrun\<close>, and so is a seek or a move to a position that is not inside the
  buffer: the package refuses the position \<open>byteLength\<close> itself, so \<open>seek(-n)\<close> needs more
  than \<open>n\<close> bytes and \<open>seek(0)\<close> a buffer that is not empty. A read may end at the end
  of the buffer.
\<close>

record Bufo =
  buffer :: "byte list"
  offset :: nat
  endian :: endian

definition byteLength :: "Bufo \<Rightarrow> nat" where
  "byteLength b = length (buffer b)"

text \<open>
  \<open>new Bufo(bytes)\<close>: a cursor at the start of the bytes. \<open>dflt\<close> stands for the byte
  order the package gives a new cursor.
\<close>

definition new_Bufo :: "endian \<Rightarrow> byte list \<Rightarrow> Bufo" where
  "new_Bufo dflt bytes = \<lparr>buffer = bytes, offset = 0, endian = dflt\<rparr>"

text \<open>
  \<open>seek(ofs)\<close>: absolute position; a negative position counts from the end. The
  magnitude of \<open>ofs\<close> has to be below \<open>byteLength\<close>.
\<close>

definition seek :: "int \<Rightarrow> Bufo \<Rightarrow> error + Bufo" where
  "seek ofs b =
     (if int (byteLength b) \<le> \<bar>ofs\<bar> then Inl BufferUnderrun
      else Inr (b\<lparr>offset := nat (if ofs < 0 then int (byteLength b) + ofs else ofs)\<rparr>))"

text \<open>
  \<open>move(ofs)\<close>: position relative to the current one. The target has to be below
  \<open>byteLength\<close> and not negative.
\<close>

definition move :: "int \<Rightarrow> Bufo \<Rightarrow> error + Bufo" where
  "move ofs b =
     (let pos = int (offset b) + ofs
      in if pos < 0 \<or> int (byteLength b) \<le> pos then Inl BufferUnderrun
         else Inr (b\<lparr>offset := nat pos\<rparr>))"

text \<open>\<open>readUInt8(n)\<close>: the next \<open>n\<close> raw bytes.\<close>

definition readUInt8 :: "nat \<Rightarrow> Bufo \<Rightarrow> error + (byte list \<times> Bufo)" where
  "readUInt8 n b =
     (if offset b + n \<le> byteLength b
      then Inr (take n (drop (offset b) (buffer b)), b\<lparr>offset := offset b + n\<rparr>)
      else Inl BufferUnderrun)"

text \<open>The unsigned and the two's complement value of a span of bytes.\<close>

definition be_value :: "byte list \<Rightarrow> nat" where
  "be_value bs = foldl (\<lambda>acc b. acc * 256 + unat b) 0 bs"

definition unsigned_value :: "endian \<Rightarrow> byte list \<Rightarrow> nat" where
  "unsigned_value e bs =
     (case e of ENDIAN_BIG \<Rightarrow> be_value bs | ENDIAN_LITTLE \<Rightarrow> be_value (rev bs))"

definition signed_value :: "endian \<Rightarrow> byte list \<Rightarrow> int" where
  "signed_value e bs =
     (let u = int (unsigned_value e bs); w = 8 * length bs
      in if 2 ^ (w - 1) \<le> u then u - 2 ^ w else u)"

text \<open>
  The integer reads. The first argument is the optional byte order of the call:
  \<open>readInt32()\<close> is \<open>readInt32 None\<close> and reads in the cursor's own order,
  \<open>readInt32(1, Bufo.ENDIAN_BIG)\<close> is \<open>readInt32 (Some ENDIAN_BIG)\<close>.
\<close>

definition order_of :: "endian option \<Rightarrow> Bufo \<Rightarrow> endian" where
  "order_of e b = (case e of None \<Rightarrow> endian b | Some x \<Rightarrow> x)"

definition readInt32 :: "endian option \<Rightarrow> Bufo \<Rightarrow> error + (int \<times> Bufo)" where
  "readInt32 e b =
     (case readUInt8 4 b of
        Inl err \<Rightarrow> Inl err
      | Inr (bs, b') \<Rightarrow> Inr (signed_value (order_of e b) bs, b'))"

definition readUInt32 :: "endian option \<Rightarrow> Bufo \<Rightarrow> error + (int \<times> Bufo)" where
  "readUInt32 e b =
     (case readUInt8 4 b of
        Inl err \<Rightarrow> Inl err
      | Inr (bs, b') \<Rightarrow> Inr (int (unsigned_value (order_of e b) bs), b'))"

definition readUInt16 :: "endian option \<Rightarrow> Bufo \<Rightarrow> error + (int \<times> Bufo)" where
  "readUInt16 e b =
     (case readUInt8 2 b of
        Inl err \<Rightarrow> Inl err
      | Inr (bs, b') \<Rightarrow> Inr (int (unsigned_value (order_of e b) bs), b'))"

subsection \<open>What a successful read leaves behind\<close>

lemma readUInt8_frame:
  "readUInt8 n b = Inr (bs, b') \<Longrightarrow>
   buffer b' = buffer b \<and> endian b' = endian b \<and>
   offset b' = offset b + n \<and> offset b' \<le> length (buffer b)"
  by (auto simp: readUInt8_def byteLength_def split: if_splits)

lemma readInt32_frame:
  "readInt32 e b = Inr (v, b') \<Longrightarrow>
   buffer b' = buffer b \<and> endian b' = endian b \<and>
   offset b' = offset b + 4 \<and> offset b' \<le> length (buffer b)"
  by (auto simp: readInt32_def dest: readUInt8_frame split: sum.splits)

lemma readUInt32_frame:
  "readUInt32 e b = Inr (v, b') \<Longrightarrow>
   buffer b' = buffer b \<and> endian b' = endian b \<and>
   offset b' = offset b + 4 \<and> offset b' \<le> length (buffer b)"
  by (auto simp: readUInt32_def dest: readUInt8_frame split: sum.splits)

lemma readUInt16_frame:
  "readUInt16 e b = Inr (v, b') \<Longrightarrow>
   buffer b' = buffer b \<and> endian b' = endian b \<and>
   offset b' = offset b + 2 \<and> offset b' \<le> length (buffer b)"
  by (auto simp: readUInt16_def dest: readUInt8_frame split: sum.splits)

section \<open>parseIndexFile\<close>

record index_entry =
  Hash_idx :: string
  Size_idx :: int
  Offset_idx :: int

text \<open>The loop \<open>for (let j = 0; j < count; j++)\<close>, by the iterations left.\<close>

fun index_loop :: "nat \<Rightarrow> Bufo \<Rightarrow> index_entry list \<Rightarrow> error + index_entry list" where
  "index_loop 0 archive entries = Inr entries"
| "index_loop (Suc n) archive entries =
     (case readUInt8 16 archive of
        Inl err \<Rightarrow> Inl err
      | Inr (hash, a1) \<Rightarrow>
     (case readInt32 (Some ENDIAN_BIG) a1 of
        Inl err \<Rightarrow> Inl err
      | Inr (sz, a2) \<Rightarrow>
     (case readInt32 (Some ENDIAN_BIG) a2 of
        Inl err \<Rightarrow> Inl err
      | Inr (ofs, a3) \<Rightarrow>
          index_loop n a3
            (entries @ [\<lparr>Hash_idx = byteArrayToHexString hash,
                         Size_idx = sz, Offset_idx = ofs\<rparr>]))))"

definition parseIndexFile :: "endian \<Rightarrow> byte list \<Rightarrow> error + index_entry list" where
  "parseIndexFile dflt bytes =
     (case seek (- 12) (new_Bufo dflt bytes) of
        Inl err \<Rightarrow> Inl err
      | Inr a1 \<Rightarrow>
     (case readInt32 None a1 of
        Inl err \<Rightarrow> Inl err
      | Inr (count, a2) \<Rightarrow>
     (case seek 0 a2 of
        Inl err \<Rightarrow> Inl err
      | Inr a3 \<Rightarrow>
          if count * 24 > int (byteLength a3) then Inl CorruptArchiveIndex
          else index_loop (nat count) a3 [])))"

text \<open>The entry count as the trailer stores it: four bytes, twelve before the end.\<close>

definition trailer_count :: "endian \<Rightarrow> byte list \<Rightarrow> int" where
  "trailer_count dflt bytes = signed_value dflt (take 4 (drop (length bytes - 12) bytes))"

text \<open>
  What one 24-byte record of the catalog stands for, in the spec's words: the key in
  hexadecimal, and the size and the offset as the unsigned 32-bit values of their four
  big-endian bytes.
\<close>

definition decode_index_entry :: "byte list \<Rightarrow> index_entry" where
  "decode_index_entry e =
     \<lparr>Hash_idx = byteArrayToHexString (take 16 e),
      Size_idx = int (unsigned_value ENDIAN_BIG (take 4 (drop 16 e))),
      Offset_idx = int (unsigned_value ENDIAN_BIG (take 4 (drop 20 e)))\<rparr>"

text \<open>A record whose size and offset are both below 2^31.\<close>

definition high_bits_clear :: "byte list \<Rightarrow> bool" where
  "high_bits_clear e =
     (unsigned_value ENDIAN_BIG (take 4 (drop 16 e)) < 2 ^ 31 \<and>
      unsigned_value ENDIAN_BIG (take 4 (drop 20 e)) < 2 ^ 31)"

section \<open>parseEncodingFile\<close>

record encoding_entry =
  Hash_enc :: string
  Key_enc :: "string option"
  Size_enc :: int

text \<open>
  The loop \<open>for (let j = 0; j < keysCount; j++)\<close>: every key is read, only the one at
  \<open>j = 0\<close> is kept in \<open>entryKey\<close> (declared without a value: \<open>None\<close>).
\<close>

fun keys_loop :: "nat \<Rightarrow> nat \<Rightarrow> Bufo \<Rightarrow> string option \<Rightarrow> error + (string option \<times> Bufo)" where
  "keys_loop j 0 encoding entryKey = Inr (entryKey, encoding)"
| "keys_loop j (Suc n) encoding entryKey =
     (case readUInt8 16 encoding of
        Inl err \<Rightarrow> Inl err
      | Inr (bs, e1) \<Rightarrow>
          keys_loop (j + 1) n e1
            (if j = 0 then Some (byteArrayToHexString bs) else entryKey))"

lemma keys_loop_frame:
  "keys_loop j n b k = Inr (k', b') \<Longrightarrow>
   buffer b' = buffer b \<and> endian b' = endian b \<and> offset b' = offset b + 16 * n"
proof (induction n arbitrary: j b k)
  case 0
  then show ?case by simp
next
  case (Suc n)
  then show ?case
    by (fastforce split: sum.splits dest: readUInt8_frame)
qed

text \<open>
  One group of a chunk, for a key count that is not zero: the file size, the content hash,
  the keys, and the entry that is pushed.
\<close>

definition read_group :: "int \<Rightarrow> Bufo \<Rightarrow> error + (encoding_entry \<times> Bufo)" where
  "read_group keysCount encoding =
     (case readUInt32 (Some ENDIAN_BIG) encoding of
        Inl err \<Rightarrow> Inl err
      | Inr (fileSize, e1) \<Rightarrow>
     (case readUInt8 16 e1 of
        Inl err \<Rightarrow> Inl err
      | Inr (hash, e2) \<Rightarrow>
     (case keys_loop 0 (nat keysCount) e2 None of
        Inl err \<Rightarrow> Inl err
      | Inr (entryKey, e3) \<Rightarrow>
          Inr (\<lparr>Hash_enc = byteArrayToHexString hash, Key_enc = entryKey,
                Size_enc = fileSize\<rparr>, e3))))"

lemma read_group_frame:
  "read_group k b = Inr (entry, b') \<Longrightarrow>
   buffer b' = buffer b \<and> endian b' = endian b \<and> offset b' = offset b + 20 + 16 * nat k"
  unfolding read_group_def
  by (fastforce split: sum.splits
        dest: readUInt32_frame readUInt8_frame keys_loop_frame)

text \<open>The loop \<open>while (keysCount !== 0)\<close>.\<close>

function groups_loop ::
  "int \<Rightarrow> Bufo \<Rightarrow> encoding_entry list \<Rightarrow> error + (encoding_entry list \<times> Bufo)" where
  "groups_loop keysCount encoding entries =
     (if keysCount \<noteq> 0 then
        (case read_group keysCount encoding of
           Inl err \<Rightarrow> Inl err
         | Inr (entry, e1) \<Rightarrow>
        (case readUInt16 None e1 of
           Inl err \<Rightarrow> Inl err
         | Inr (keysCount', e2) \<Rightarrow> groups_loop keysCount' e2 (entries @ [entry])))
      else Inr (entries, encoding))"
  by pat_completeness auto
termination
proof (relation "measure (\<lambda>(k, b, es). length (buffer b) - offset b)", goal_cases)
  case 1
  show ?case by simp
next
  case (2 keysCount encoding entries x2 entry e1 x2a keysCount' e2)
  have g: "read_group keysCount encoding = Inr (entry, e1)"
    using 2 by simp
  have r: "readUInt16 None e1 = Inr (keysCount', e2)"
    using 2 by simp
  from read_group_frame [OF g] readUInt16_frame [OF r]
  have "offset encoding < offset e2" and "offset e2 \<le> length (buffer encoding)"
   and "buffer e2 = buffer encoding"
    by simp_all
  then show ?case by simp
qed

declare groups_loop.simps [simp del]

text \<open>
  JavaScript's \<open>%\<close> takes the sign of the dividend.
\<close>

definition js_rem :: "int \<Rightarrow> int \<Rightarrow> int" where
  "js_rem a b = sgn a * (\<bar>a\<bar> mod \<bar>b\<bar>)"

text \<open>The chunk up to and including its zero key count.\<close>

definition read_chunk ::
  "Bufo \<Rightarrow> encoding_entry list \<Rightarrow> error + (encoding_entry list \<times> Bufo)" where
  "read_chunk encoding entries =
     (case readUInt16 None encoding of
        Inl err \<Rightarrow> Inl err
      | Inr (keysCount, e1) \<Rightarrow> groups_loop keysCount e1 entries)"

text \<open>The skip to the next chunk: \<open>remainingBytes\<close> and the \<open>move\<close>.\<close>

definition align_chunk :: "nat \<Rightarrow> Bufo \<Rightarrow> error + Bufo" where
  "align_chunk chunkStart encoding =
     (let remainingBytes = 4096 - js_rem (int (offset encoding) - int chunkStart) 4096
      in if remainingBytes > 0 then move remainingBytes encoding else Inr encoding)"

text \<open>The body of \<open>for (let i = 0; i < numEntriesA; i++)\<close>, and the loop.\<close>

definition chunk_body ::
  "nat \<Rightarrow> Bufo \<Rightarrow> encoding_entry list \<Rightarrow> error + (encoding_entry list \<times> Bufo)" where
  "chunk_body chunkStart encoding entries =
     (case read_chunk encoding entries of
        Inl err \<Rightarrow> Inl err
      | Inr (entries', e1) \<Rightarrow>
     (case align_chunk chunkStart e1 of
        Inl err \<Rightarrow> Inl err
      | Inr e2 \<Rightarrow> Inr (entries', e2)))"

fun chunks_loop ::
  "nat \<Rightarrow> nat \<Rightarrow> Bufo \<Rightarrow> encoding_entry list \<Rightarrow> error + encoding_entry list" where
  "chunks_loop chunkStart 0 encoding entries = Inr entries"
| "chunks_loop chunkStart (Suc n) encoding entries =
     (case chunk_body chunkStart encoding entries of
        Inl err \<Rightarrow> Inl err
      | Inr (entries', e1) \<Rightarrow> chunks_loop chunkStart n e1 entries')"

text \<open>
  The header: the reserved bytes, \<open>numEntriesA\<close>, the string block and the entries that
  are skipped. The cursor it leaves is where the chunks start.
\<close>

definition encoding_header :: "Bufo \<Rightarrow> error + (int \<times> Bufo)" where
  "encoding_header encoding =
     (case seek 9 encoding of
        Inl err \<Rightarrow> Inl err
      | Inr e1 \<Rightarrow>
     (case readInt32 (Some ENDIAN_BIG) e1 of
        Inl err \<Rightarrow> Inl err
      | Inr (numEntriesA, e2) \<Rightarrow>
     (case move 5 e2 of
        Inl err \<Rightarrow> Inl err
      | Inr e3 \<Rightarrow>
     (case readInt32 (Some ENDIAN_BIG) e3 of
        Inl err \<Rightarrow> Inl err
      | Inr (stringBlockSize, e4) \<Rightarrow>
     (case move stringBlockSize e4 of
        Inl err \<Rightarrow> Inl err
      | Inr e5 \<Rightarrow>
     (case move (numEntriesA * 32) e5 of
        Inl err \<Rightarrow> Inl err
      | Inr e6 \<Rightarrow> Inr (numEntriesA, e6)))))))"

definition parseEncodingFile :: "Bufo \<Rightarrow> error + encoding_entry list" where
  "parseEncodingFile encoding =
     (case encoding_header encoding of
        Inl err \<Rightarrow> Inl err
      | Inr (numEntriesA, e6) \<Rightarrow>
          (let chunkStart = offset e6
           in chunks_loop chunkStart (nat numEntriesA) e6 []))"

subsection \<open>An example: a chunk that ends on a boundary\<close>

text \<open>
  An encoding table of 8247 bytes with \<open>numEntriesA = 1\<close>, an empty string block and the
  32 skipped bytes, so that the chunks start at 54. The chunk holds five groups, of 245
  keys and four times one key, all of zero bytes, and then the zero key count, which ends
  4096 bytes after the start of the chunk.
\<close>

definition example_encoding :: Bufo where
  "example_encoding = new_Bufo ENDIAN_LITTLE
     (replicate 12 0 @ [1] @ replicate 41 0 @
      [245, 0] @ replicate 3940 0 @
      [1, 0] @ replicate 36 0 @
      [1, 0] @ replicate 36 0 @
      [1, 0] @ replicate 36 0 @
      [1, 0] @ replicate 36 0 @
      replicate 4099 0)"

definition zero_entry :: encoding_entry where
  "zero_entry =
     \<lparr>Hash_enc = ''00000000000000000000000000000000'',
      Key_enc = Some ''00000000000000000000000000000000'',
      Size_enc = 0\<rparr>"

section \<open>parseRootFile\<close>

subsection \<open>Arrays and flags\<close>

text \<open>
  A JavaScript array that can have holes: \<open>None\<close> is a slot that was never assigned, and
  reading outside the array gives the same \<open>undefined\<close>. An assignment beyond the end
  extends the array and leaves holes in between.
\<close>

definition array_get :: "'a option list \<Rightarrow> nat \<Rightarrow> 'a option" where
  "array_get xs i = (if i < length xs then xs ! i else None)"

definition array_set :: "'a option list \<Rightarrow> nat \<Rightarrow> 'a \<Rightarrow> 'a option list" where
  "array_set xs i v =
     (if i < length xs then xs[i := Some v]
      else xs @ replicate (i - length xs) None @ [Some v])"

definition LOCALE_FLAG_None :: int where
  "LOCALE_FLAG_None = 0"

definition CONTENT_FLAG_None :: int where
  "CONTENT_FLAG_None = 0"

definition CONTENT_FLAG_F00000008 :: "32 word" where
  "CONTENT_FLAG_F00000008 = 0x8"

definition CONTENT_FLAG_F00000010 :: "32 word" where
  "CONTENT_FLAG_F00000010 = 0x10"

definition CONTENT_FLAG_F20000000 :: "32 word" where
  "CONTENT_FLAG_F20000000 = 0x20000000"

definition CONTENT_FLAG_NoCompression :: "32 word" where
  "CONTENT_FLAG_NoCompression = 0x80000000"

text \<open>
  The operands of \<open>&\<close> and \<open>|\<close> are taken as 32-bit integers; a boolean operand counts
  as 1 or 0.
\<close>

definition ToInt32 :: "int \<Rightarrow> 32 word" where
  "ToInt32 x = word_of_int x"

definition bool_ToInt32 :: "bool \<Rightarrow> 32 word" where
  "bool_ToInt32 c = (if c then 1 else 0)"

text \<open>
  The condition of the second \<open>throw\<close>, as JavaScript parses it. \<open>===\<close> binds
  tighter than \<open>&\<close>, so the expression is
  \<open>contentFlag !== None && (contentFlag & ((F00000008 | F00000010 | NoCompression | F20000000) === 0))\<close>;
  the \<open>if\<close> takes the branch when the value is neither \<open>false\<close> nor 0.
\<close>

definition invalid_content_flag :: "int \<Rightarrow> bool" where
  "invalid_content_flag contentFlag =
     (contentFlag \<noteq> CONTENT_FLAG_None \<and>
      (ToInt32 contentFlag AND
         bool_ToInt32
           ((CONTENT_FLAG_F00000008 OR CONTENT_FLAG_F00000010 OR
             CONTENT_FLAG_NoCompression OR CONTENT_FLAG_F20000000) = 0)) \<noteq> 0)"

subsection \<open>One block\<close>

record root_type =
  LocaleFlag :: int
  ContentFlag :: int

text \<open>
  The array \<open>entries\<close> declared inside the \<open>while\<close> body holds two kinds of objects:
  the \<open>{RootType, FileDataID}\<close> slots written by the first loop and the
  \<open>{Hash, FileDataID, Key, Type}\<close> entries pushed by the second.
\<close>

datatype block_item =
    is_IdSlot: IdSlot (RootType: nat) (FileDataID: int)
  | is_RootEntry: RootEntry (Hash: string) (FileDataID: int) (Key: string) (Type: nat)

text \<open>
  The first loop, over \<open>i\<close> with \<open>n\<close> iterations left: the running
  \<open>fileDataIndex\<close> and the slot written at \<open>entries[i]\<close>.
\<close>

fun ids_loop ::
  "nat \<Rightarrow> nat \<Rightarrow> nat \<Rightarrow> int \<Rightarrow> Bufo \<Rightarrow> block_item option list \<Rightarrow>
   error + (block_item option list \<times> Bufo)" where
  "ids_loop typeIndex i 0 fileDataIndex root entries = Inr (entries, root)"
| "ids_loop typeIndex i (Suc n) fileDataIndex root entries =
     (case readInt32 None root of
        Inl err \<Rightarrow> Inl err
      | Inr (delta, r1) \<Rightarrow>
          (let nextID = fileDataIndex + delta
           in ids_loop typeIndex (i + 1) n (nextID + 1) r1
                (array_set entries i (IdSlot typeIndex nextID))))"

text \<open>
  The second loop. \<open>entries[i]\<close> of a slot that does not exist is \<open>undefined\<close>, and reading
  its \<open>FileDataID\<close> throws a \<open>TypeError\<close>. An entry whose id is in \<open>rootIndex\<close> with
  another hash is skipped (\<open>continue\<close>); any other is pushed and recorded. The slots
  read here are the ones the first loop wrote, so \<open>RootType\<close> is read from an
  \<open>IdSlot\<close> only.
\<close>

fun records_loop ::
  "nat \<Rightarrow> nat \<Rightarrow> Bufo \<Rightarrow> (int \<rightharpoonup> string) \<Rightarrow> block_item option list \<Rightarrow>
   error + (block_item option list \<times> (int \<rightharpoonup> string) \<times> Bufo)" where
  "records_loop i 0 root rootIndex entries = Inr (entries, rootIndex, root)"
| "records_loop i (Suc n) root rootIndex entries =
     (case readUInt8 16 root of
        Inl err \<Rightarrow> Inl err
      | Inr (keyBytes, r1) \<Rightarrow>
     (case readUInt8 8 r1 of
        Inl err \<Rightarrow> Inl err
      | Inr (hashBytes, r2) \<Rightarrow>
          (let key = byteArrayToHexString keyBytes;
               hash = byteArrayToHexString hashBytes
           in case array_get entries i of
                None \<Rightarrow> Inl TypeError
              | Some entry \<Rightarrow>
                  (let hashCheck = rootIndex (FileDataID entry)
                   in if hashCheck \<noteq> None \<and> hashCheck \<noteq> Some hash
                      then records_loop (i + 1) n r2 rootIndex entries
                      else records_loop (i + 1) n r2
                             (rootIndex(FileDataID entry \<mapsto> hash))
                             (entries @
                                [Some (RootEntry hash (FileDataID entry) key
                                         (RootType entry))])))))"

lemma ids_loop_frame:
  "ids_loop t i n f b es = Inr (es', b') \<Longrightarrow>
   buffer b' = buffer b \<and> endian b' = endian b \<and> offset b' = offset b + 4 * n \<and>
   (offset b \<le> length (buffer b) \<longrightarrow> offset b' \<le> length (buffer b))"
proof (induction n arbitrary: i f b es)
  case 0
  then show ?case by simp
next
  case (Suc n)
  then show ?case
    by (fastforce simp: Let_def split: sum.splits dest: readInt32_frame)
qed

lemma records_loop_frame:
  "records_loop i n b m es = Inr (es', m', b') \<Longrightarrow>
   buffer b' = buffer b \<and> endian b' = endian b \<and> offset b' = offset b + 24 * n \<and>
   (offset b \<le> length (buffer b) \<longrightarrow> offset b' \<le> length (buffer b))"
proof (induction n arbitrary: i b m es)
  case 0
  then show ?case by simp
next
  case (Suc n)
  then show ?case
    by (fastforce simp: Let_def split: sum.splits option.splits if_splits
          dest: readUInt8_frame)
qed

text \<open>
  The variables that live across the blocks, and the body of the \<open>while\<close> loop. The
  body returns the block's own \<open>entries\<close> array beside the state, so that what a block
  built can be stated; the loop below drops it, as the end of the iteration does.
\<close>

record root_state =
  rootIndex :: "int \<rightharpoonup> string"
  typeIndex :: nat
  types :: "root_type option list"

definition parse_block ::
  "root_state \<Rightarrow> Bufo \<Rightarrow> error + (block_item option list \<times> root_state \<times> Bufo)" where
  "parse_block st root =
     (case readInt32 None root of
        Inl err \<Rightarrow> Inl err
      | Inr (count, r1) \<Rightarrow>
     (case readUInt32 None r1 of
        Inl err \<Rightarrow> Inl err
      | Inr (contentFlag, r2) \<Rightarrow>
     (case readUInt32 None r2 of
        Inl err \<Rightarrow> Inl err
      | Inr (localeFlag, r3) \<Rightarrow>
          if localeFlag = LOCALE_FLAG_None then Inl RootNoLocale
          else if invalid_content_flag contentFlag then Inl RootInvalidContentFlag
          else
            (let typeIndex' = typeIndex st + 1;
                 types' = array_set (types st) typeIndex'
                            \<lparr>LocaleFlag = localeFlag, ContentFlag = contentFlag\<rparr>
             in case ids_loop typeIndex' 0 (nat count) 0 r3 [] of
                  Inl err \<Rightarrow> Inl err
                | Inr (entries, r4) \<Rightarrow>
                (case records_loop 0 (nat count) r4 (rootIndex st) entries of
                   Inl err \<Rightarrow> Inl err
                 | Inr (entries', rootIndex', r5) \<Rightarrow>
                     Inr (entries',
                          \<lparr>rootIndex = rootIndex', typeIndex = typeIndex',
                           types = types'\<rparr>, r5))))))"

lemma parse_block_frame:
  assumes "parse_block st b = Inr (es, st', b')"
  shows "buffer b' = buffer b \<and> endian b' = endian b \<and>
         offset b + 12 \<le> offset b' \<and> offset b' \<le> length (buffer b)"
proof -
  from assms obtain count r1 cf r2 lf r3 es0 r4 m' where
    a: "readInt32 None b = Inr (count, r1)" and
    b: "readUInt32 None r1 = Inr (cf, r2)" and
    c: "readUInt32 None r2 = Inr (lf, r3)" and
    d: "ids_loop (typeIndex st + 1) 0 (nat count) 0 r3 [] = Inr (es0, r4)" and
    e: "records_loop 0 (nat count) r4 (rootIndex st) es0 = Inr (es, m', b')"
    unfolding parse_block_def
    by (auto simp: Let_def split: sum.splits if_splits)
  note fa = readInt32_frame [OF a] and fb = readUInt32_frame [OF b]
    and fc = readUInt32_frame [OF c] and fd = ids_loop_frame [OF d]
    and fe = records_loop_frame [OF e]
  have "buffer b' = buffer b" "endian b' = endian b"
    using fa fb fc fd fe by simp_all
  moreover have "offset b + 12 \<le> offset b'"
    using fa fb fc fd fe by simp
  moreover have "offset r3 \<le> length (buffer r3)"
    using fa fb fc by simp
  then have "offset b' \<le> length (buffer b)"
    using fa fb fc fd fe by simp
  ultimately show ?thesis by simp
qed

text \<open>The loop \<open>while (root.offset < root.byteLength)\<close>.\<close>

function blocks_loop :: "root_state \<Rightarrow> Bufo \<Rightarrow> error + root_state" where
  "blocks_loop st root =
     (if offset root < byteLength root then
        (case parse_block st root of
           Inl err \<Rightarrow> Inl err
         | Inr (blockEntries, st', root') \<Rightarrow> blocks_loop st' root')
      else Inr st)"
  by pat_completeness auto
termination
proof (relation "measure (\<lambda>(st, b). length (buffer b) - offset b)", goal_cases)
  case 1
  show ?case by simp
next
  case (2 st root x2 blockEntries x2a st' root')
  have "parse_block st root = Inr (blockEntries, st', root')"
    using 2 by simp
  from parse_block_frame [OF this]
  have "offset root < offset root'" and "offset root' \<le> length (buffer root)"
   and "buffer root' = buffer root"
    by simp_all
  then show ?case by simp
qed

declare blocks_loop.simps [simp del]

text \<open>
  The function. The \<open>entries\<close> it returns is the array declared in its first line; the
  blocks write to the array of the same name declared inside the loop body.
\<close>

record root_result =
  Entries :: "block_item list"
  Types :: "root_type option list"

definition parseRootFile :: "Bufo \<Rightarrow> error + root_result" where
  "parseRootFile root =
     (let entries = []; types = []
      in case seek 0 root of
           Inl err \<Rightarrow> Inl err
         | Inr r0 \<Rightarrow>
         (case blocks_loop \<lparr>rootIndex = Map.empty, typeIndex = 0, types = types\<rparr> r0 of
            Inl err \<Rightarrow> Inl err
          | Inr st \<Rightarrow> Inr \<lparr>Entries = entries, Types = root_state.types st\<rparr>))"

subsection \<open>What the blocks of a parse are\<close>

text \<open>
  The delta decoding in the spec's words: a running index, the absolute id is the running
  index plus the delta, and the next running index is that id plus one.
\<close>

fun decode_ids :: "int \<Rightarrow> int list \<Rightarrow> int list" where
  "decode_ids runningIndex [] = []"
| "decode_ids runningIndex (delta # deltas) =
     (let absoluteId = runningIndex + delta
      in absoluteId # decode_ids (absoluteId + 1) deltas)"

text \<open>
  The iterations of the \<open>while\<close> loop, for stating what each block did: the cursor the
  block started at, and the \<open>entries\<close> array of that iteration. The recursion is that of
  \<open>blocks_loop\<close>.
\<close>

function blocks_trace :: "root_state \<Rightarrow> Bufo \<Rightarrow> (Bufo \<times> block_item option list) list" where
  "blocks_trace st root =
     (if offset root < byteLength root then
        (case parse_block st root of
           Inl err \<Rightarrow> []
         | Inr (blockEntries, st', root') \<Rightarrow> (root, blockEntries) # blocks_trace st' root')
      else [])"
  by pat_completeness auto
termination
proof (relation "measure (\<lambda>(st, b). length (buffer b) - offset b)", goal_cases)
  case 1
  show ?case by simp
next
  case (2 st root x2 blockEntries x2a st' root')
  have "parse_block st root = Inr (blockEntries, st', root')"
    using 2 by simp
  from parse_block_frame [OF this]
  have "offset root < offset root'" and "offset root' \<le> length (buffer root)"
   and "buffer root' = buffer root"
    by simp_all
  then show ?case by simp
qed

declare blocks_trace.simps [simp del]

definition root_blocks :: "Bufo \<Rightarrow> (Bufo \<times> block_item option list) list" where
  "root_blocks root =
     blocks_trace \<lparr>rootIndex = Map.empty, typeIndex = 0, types = []\<rparr> (root\<lparr>offset := 0\<rparr>)"

text \<open>The flag pair in the header of the block that starts at a cursor.\<close>

definition block_flags :: "Bufo \<Rightarrow> root_type" where
  "block_flags b =
     \<lparr>LocaleFlag = int (unsigned_value (endian b) (take 4 (drop (offset b + 8) (buffer b)))),
      ContentFlag = int (unsigned_value (endian b) (take 4 (drop (offset b + 4) (buffer b))))\<rparr>"

text \<open>The entries a block pushed: the \<open>RootEntry\<close> items of its array, in order.\<close>

definition pushed :: "block_item option list \<Rightarrow> block_item list" where
  "pushed es = [e. Some e \<leftarrow> es, is_RootEntry e]"

subsection \<open>An example: two blocks that declare the same file\<close>

text \<open>
  Two blocks of one entry each, both for FileDataID 100. The first has the content flag 0,
  the locale flag 2 and the content hash AB...AB; the second has the content flag 8, the
  locale flag 4 and a content hash made of eight bytes \<open>h\<close>.
\<close>

definition example_root :: "byte \<Rightarrow> Bufo" where
  "example_root h = new_Bufo ENDIAN_LITTLE
     [1, 0, 0, 0,  0, 0, 0, 0,  2, 0, 0, 0,
      100, 0, 0, 0,
      0x11, 0x11, 0x11, 0x11, 0x11, 0x11, 0x11, 0x11,
      0x11, 0x11, 0x11, 0x11, 0x11, 0x11, 0x11, 0x11,
      0xAB, 0xAB, 0xAB, 0xAB, 0xAB, 0xAB, 0xAB, 0xAB,
      1, 0, 0, 0,  8, 0, 0, 0,  4, 0, 0, 0,
      100, 0, 0, 0,
      0x22, 0x22, 0x22, 0x22, 0x22, 0x22, 0x22, 0x22,
      0x22, 0x22, 0x22, 0x22, 0x22, 0x22, 0x22, 0x22,
      h, h, h, h, h, h, h, h]"

section \<open>Facts about the cursor\<close>

lemma readUInt8_ok:
  "offset b + n \<le> length (buffer b) \<Longrightarrow>
   readUInt8 n b = Inr (take n (drop (offset b) (buffer b)), b\<lparr>offset := offset b + n\<rparr>)"
  by (simp add: readUInt8_def byteLength_def)

lemma readInt32_ok:
  "offset b + 4 \<le> length (buffer b) \<Longrightarrow>
   readInt32 e b = Inr (signed_value (order_of e b) (take 4 (drop (offset b) (buffer b))),
                        b\<lparr>offset := offset b + 4\<rparr>)"
  by (simp add: readInt32_def readUInt8_ok)

lemma parseIndexFile_unfold:
  assumes "12 < length bytes"
  shows "parseIndexFile dflt bytes =
           (if trailer_count dflt bytes * 24 > int (length bytes) then Inl CorruptArchiveIndex
            else index_loop (nat (trailer_count dflt bytes)) (new_Bufo dflt bytes) [])"
proof -
  let ?a1 = "(new_Bufo dflt bytes)\<lparr>offset := length bytes - 12\<rparr>"
  have s1: "seek (- 12) (new_Bufo dflt bytes) = Inr ?a1"
    using assms by (simp add: seek_def new_Bufo_def byteLength_def nat_diff_distrib)
  have r: "readInt32 None ?a1 =
             Inr (trailer_count dflt bytes, ?a1\<lparr>offset := length bytes - 12 + 4\<rparr>)"
    using assms
    by (subst readInt32_ok) (simp_all add: new_Bufo_def trailer_count_def order_of_def)
  have "0 < length bytes" using assms by (cases bytes) simp_all
  then have s2: "seek 0 (?a1\<lparr>offset := length bytes - 12 + 4\<rparr>) = Inr (new_Bufo dflt bytes)"
    by (simp add: seek_def new_Bufo_def byteLength_def)
  show ?thesis
    unfolding parseIndexFile_def s1 sum.case r prod.case s2
    by (simp add: byteLength_def new_Bufo_def)
qed

lemma signed_value_small:
  assumes "length bs = 4" and "unsigned_value e bs < 2 ^ 31"
  shows "signed_value e bs = int (unsigned_value e bs)"
proof -
  have "int (unsigned_value e bs) < 2147483648"
    using assms(2) by simp
  then show ?thesis
    by (simp add: signed_value_def assms(1) Let_def)
qed

lemma index_loop_decode:
  assumes "\<forall>e \<in> set es. length e = 24 \<and> high_bits_clear e"
      and "drop (offset b) (buffer b) = concat es @ rest"
  shows "index_loop (length es) b acc = Inr (acc @ map decode_index_entry es)"
  using assms
proof (induction es arbitrary: b acc)
  case Nil
  then show ?case by simp
next
  case (Cons e es)
  have len: "length e = 24" using Cons.prems(1) by simp
  have hc: "high_bits_clear e" using Cons.prems(1) by simp
  have clr: "unsigned_value ENDIAN_BIG (take 4 (drop 16 e)) < 2 ^ 31"
            "unsigned_value ENDIAN_BIG (take 4 (drop 20 e)) < 2 ^ 31"
    using hc unfolding high_bits_clear_def by (rule conjunct1, rule conjunct2)
  have d: "drop (offset b) (buffer b) = e @ concat es @ rest"
    using Cons.prems(2) by simp
  have room: "offset b + 24 \<le> length (buffer b)"
  proof -
    have "length (drop (offset b) (buffer b)) \<ge> 24" using d len by simp
    then show ?thesis by simp
  qed
  let ?b1 = "b\<lparr>offset := offset b + 16\<rparr>"
  let ?b2 = "b\<lparr>offset := offset b + 20\<rparr>"
  let ?b3 = "b\<lparr>offset := offset b + 24\<rparr>"
  have k: "take 16 (drop (offset b) (buffer b)) = take 16 e"
    using d len by simp
  have s: "take 4 (drop (offset b + 16) (buffer b)) = take 4 (drop 16 e)"
  proof -
    have "drop (offset b + 16) (buffer b) = drop 16 (drop (offset b) (buffer b))"
      by (simp add: add.commute)
    then show ?thesis using d len by simp
  qed
  have o: "take 4 (drop (offset b + 20) (buffer b)) = take 4 (drop 20 e)"
  proof -
    have "drop (offset b + 20) (buffer b) = drop 20 (drop (offset b) (buffer b))"
      by (simp add: add.commute)
    then show ?thesis using d len by simp
  qed
  have l4: "length (take 4 (drop 16 e)) = 4" "length (take 4 (drop 20 e)) = 4"
    using len by simp_all
  have sv: "signed_value ENDIAN_BIG (take 4 (drop 16 e)) =
              int (unsigned_value ENDIAN_BIG (take 4 (drop 16 e)))"
    by (rule signed_value_small [OF l4(1) clr(1)])
  have ov: "signed_value ENDIAN_BIG (take 4 (drop 20 e)) =
              int (unsigned_value ENDIAN_BIG (take 4 (drop 20 e)))"
    by (rule signed_value_small [OF l4(2) clr(2)])
  have r1: "readUInt8 16 b = Inr (take 16 e, ?b1)"
    using room k by (simp add: readUInt8_ok)
  have r2: "readInt32 (Some ENDIAN_BIG) ?b1 =
              Inr (int (unsigned_value ENDIAN_BIG (take 4 (drop 16 e))), ?b2)"
    using room s sv by (simp add: readInt32_ok order_of_def del: take_all)
  have r3: "readInt32 (Some ENDIAN_BIG) ?b2 =
              Inr (int (unsigned_value ENDIAN_BIG (take 4 (drop 20 e))), ?b3)"
    using room o ov by (simp add: readInt32_ok order_of_def)
  have rest: "drop (offset ?b3) (buffer ?b3) = concat es @ rest"
  proof -
    have "drop (offset b + 24) (buffer b) = drop 24 (drop (offset b) (buffer b))"
      by (simp add: add.commute)
    then show ?thesis using d len by simp
  qed
  have ih: "index_loop (length es) ?b3 (acc @ [decode_index_entry e]) =
              Inr ((acc @ [decode_index_entry e]) @ map decode_index_entry es)"
    using Cons.IH [of ?b3 "acc @ [decode_index_entry e]"] Cons.prems(1) rest by simp
  show ?case
    using ih by (simp add: r1 r2 r3 decode_index_entry_def)
qed

section \<open>The archive index\<close>

text \<open>
  C3, as amended. A buffer of more than twelve bytes, made of N records of 24 bytes whose
  sizes and offsets are below 2^31, followed by a trailer whose four bytes twelve before
  the end hold N, parses to exactly N entries, in the order of the records, nothing
  sorted and nothing dropped; each entry holds the hexadecimal form of the 16 key bytes
  and the unsigned values of the big-endian size and offset. (The source names the key
  field \<open>Hash\<close>.) The witness is the spec's example: one record of sixteen bytes 0xAA,
  size 0x100 and offset 0x200, with a trailer holding 1.
\<close>

theorem parseIndexFile_entries:
  assumes "\<forall>e \<in> set es. length e = 24 \<and> high_bits_clear e"
      and "12 \<le> length trailer"
      and "12 < length (concat es @ trailer)"
      and "trailer_count dflt (concat es @ trailer) = int (length es)"
  shows "parseIndexFile dflt (concat es @ trailer) = Inr (map decode_index_entry es)"
proof -
  let ?bytes = "concat es @ trailer"
  have "\<forall>e \<in> set es. length e = 24" using assms(1) by simp
  then have len: "length (concat es) = 24 * length es"
    by (induction es) simp_all
  have guard: "\<not> trailer_count dflt ?bytes * 24 > int (length ?bytes)"
    using assms(4) len by simp
  have "index_loop (length es) (new_Bufo dflt ?bytes) [] = Inr ([] @ map decode_index_entry es)"
    by (rule index_loop_decode [OF assms(1), where rest = trailer])
       (simp add: new_Bufo_def)
  then show ?thesis
    using guard assms(4) by (simp add: parseIndexFile_unfold [OF assms(3)])
qed

theorem parseIndexFile_entries_witness:
  "parseIndexFile ENDIAN_LITTLE
     ([0xAA, 0xAA, 0xAA, 0xAA, 0xAA, 0xAA, 0xAA, 0xAA,
       0xAA, 0xAA, 0xAA, 0xAA, 0xAA, 0xAA, 0xAA, 0xAA,
       0, 0, 1, 0, 0, 0, 2, 0] @ [1, 0, 0, 0, 0, 0, 0, 0, 0, 0, 0, 0])
   = Inr [\<lparr>Hash_idx = ''aaaaaaaaaaaaaaaaaaaaaaaaaaaaaaaa'',
            Size_idx = 256, Offset_idx = 512\<rparr>]"
  using parseIndexFile_entries
    [of "[[0xAA, 0xAA, 0xAA, 0xAA, 0xAA, 0xAA, 0xAA, 0xAA,
           0xAA, 0xAA, 0xAA, 0xAA, 0xAA, 0xAA, 0xAA, 0xAA,
           0, 0, 1, 0, 0, 0, 2, 0]]"
        "[1, 0, 0, 0, 0, 0, 0, 0, 0, 0, 0, 0]" ENDIAN_LITTLE]
  by (simp add: trailer_count_def signed_value_def unsigned_value_def be_value_def
        high_bits_clear_def
        decode_index_entry_def byteArrayToHexString_def byteToHex_def hex_digit_def)

text \<open>
  C3 as first stated, for every N and every well-formed record, fails twice. With no
  record and a trailer of exactly twelve bytes that holds 0, the \<open>seek(-12)\<close> is refused
  and the parse fails where the claim expects the empty list. With the record whose size
  bytes are 80 00 00 00 and whose offset bytes are FF FF FF FF, the parse returns the
  size -2147483648 and the offset -1 where the claim expects 2147483648 and 4294967295.
\<close>

theorem parseIndexFile_entries_counterexample:
  "trailer_count ENDIAN_LITTLE [0, 0, 0, 0, 0, 0, 0, 0, 0, 0, 0, 0] = 0 \<and>
   parseIndexFile ENDIAN_LITTLE [0, 0, 0, 0, 0, 0, 0, 0, 0, 0, 0, 0] = Inl BufferUnderrun \<and>
   parseIndexFile ENDIAN_LITTLE
     ([0xAA, 0xAA, 0xAA, 0xAA, 0xAA, 0xAA, 0xAA, 0xAA,
       0xAA, 0xAA, 0xAA, 0xAA, 0xAA, 0xAA, 0xAA, 0xAA,
       0x80, 0, 0, 0, 0xFF, 0xFF, 0xFF, 0xFF] @ [1, 0, 0, 0, 0, 0, 0, 0, 0, 0, 0, 0])
   \<noteq> Inr (map decode_index_entry
            [[0xAA, 0xAA, 0xAA, 0xAA, 0xAA, 0xAA, 0xAA, 0xAA,
              0xAA, 0xAA, 0xAA, 0xAA, 0xAA, 0xAA, 0xAA, 0xAA,
              0x80, 0, 0, 0, 0xFF, 0xFF, 0xFF, 0xFF]])"
  by (simp add: parseIndexFile_def new_Bufo_def seek_def byteLength_def readInt32_def
        readUInt8_def order_of_def signed_value_def unsigned_value_def be_value_def
        trailer_count_def decode_index_entry_def
        byteArrayToHexString_def byteToHex_def hex_digit_def)



text \<open>
  C8. The claim: the size and the offset of an entry are the unsigned readings of their
  four big-endian bytes, so a field with the high bit set comes out in [2^31, 2^32).
  The source reads both with \<open>readInt32\<close>, the signed read. On the record with size
  bytes 80 00 00 00 and offset bytes FF FF FF FF the parse returns the size -2147483648
  and the offset -1, where the unsigned readings are 2147483648 and 4294967295.
\<close>

theorem parseIndexFile_high_bit_negative:
  "parseIndexFile ENDIAN_LITTLE
     ([0xAA, 0xAA, 0xAA, 0xAA, 0xAA, 0xAA, 0xAA, 0xAA,
       0xAA, 0xAA, 0xAA, 0xAA, 0xAA, 0xAA, 0xAA, 0xAA,
       0x80, 0, 0, 0, 0xFF, 0xFF, 0xFF, 0xFF] @ [1, 0, 0, 0, 0, 0, 0, 0, 0, 0, 0, 0])
   = Inr [\<lparr>Hash_idx = ''aaaaaaaaaaaaaaaaaaaaaaaaaaaaaaaa'',
            Size_idx = - 2147483648, Offset_idx = - 1\<rparr>]
   \<and> unsigned_value ENDIAN_BIG [0x80, 0, 0, 0] = 2147483648
   \<and> unsigned_value ENDIAN_BIG [0xFF, 0xFF, 0xFF, 0xFF] = 4294967295"
  by (simp add: parseIndexFile_def new_Bufo_def seek_def byteLength_def readInt32_def
        readUInt8_def order_of_def signed_value_def unsigned_value_def be_value_def
        byteArrayToHexString_def byteToHex_def hex_digit_def)

text \<open>
  C9, as amended. On a buffer of more than twelve bytes whose stored count is negative
  the parse does not fail: the product count * 24 is negative, so the size guard lets it
  pass, the entry loop runs zero times, and the result is the empty entry list.
\<close>

theorem parseIndexFile_negative_count:
  assumes "12 < length bytes"
      and "trailer_count dflt bytes < 0"
  shows "parseIndexFile dflt bytes = Inr []"
proof -
  have "\<not> trailer_count dflt bytes * 24 > int (length bytes)"
    using assms(2) by simp
  moreover have "nat (trailer_count dflt bytes) = 0"
    using assms(2) by simp
  ultimately show ?thesis
    by (simp add: parseIndexFile_unfold [OF assms(1)])
qed

theorem parseIndexFile_negative_count_witness:
  "trailer_count ENDIAN_LITTLE [7, 0xFF, 0xFF, 0xFF, 0xFF, 0, 0, 0, 0, 0, 0, 0, 0] = - 1 \<and>
   parseIndexFile ENDIAN_LITTLE [7, 0xFF, 0xFF, 0xFF, 0xFF, 0, 0, 0, 0, 0, 0, 0, 0] = Inr []"
  using parseIndexFile_negative_count
    [of "[7, 0xFF, 0xFF, 0xFF, 0xFF, 0, 0, 0, 0, 0, 0, 0, 0]" ENDIAN_LITTLE]
  by (simp add: trailer_count_def signed_value_def unsigned_value_def be_value_def)

text \<open>
  C9 as first stated, for every buffer of at least twelve bytes, fails at exactly twelve:
  the stored count is -1, but the \<open>seek(-12)\<close> is refused and the parse fails.
\<close>

theorem parseIndexFile_negative_count_counterexample:
  "length [0xFF, 0xFF, 0xFF, 0xFF, 0, 0, 0, 0, 0, 0, 0, 0 :: byte] = 12 \<and>
   trailer_count ENDIAN_LITTLE [0xFF, 0xFF, 0xFF, 0xFF, 0, 0, 0, 0, 0, 0, 0, 0] = - 1 \<and>
   parseIndexFile ENDIAN_LITTLE [0xFF, 0xFF, 0xFF, 0xFF, 0, 0, 0, 0, 0, 0, 0, 0]
     = Inl BufferUnderrun"
  by (simp add: parseIndexFile_def new_Bufo_def seek_def byteLength_def
        trailer_count_def signed_value_def unsigned_value_def be_value_def)

section \<open>Facts about the encoding table\<close>

lemma readUInt32_ok:
  "offset b + 4 \<le> length (buffer b) \<Longrightarrow>
   readUInt32 e b =
     Inr (int (unsigned_value (order_of e b) (take 4 (drop (offset b) (buffer b)))),
          b\<lparr>offset := offset b + 4\<rparr>)"
  by (simp add: readUInt32_def readUInt8_ok)

lemma keys_loop_ok:
  "offset b + 16 * n \<le> length (buffer b) \<Longrightarrow>
   keys_loop j n b k =
     Inr (if n = 0 \<or> j \<noteq> 0 then k
          else Some (byteArrayToHexString (take 16 (drop (offset b) (buffer b)))),
          b\<lparr>offset := offset b + 16 * n\<rparr>)"
proof (induction n arbitrary: j b k)
  case 0
  then show ?case by simp
next
  case (Suc n)
  let ?b1 = "b\<lparr>offset := offset b + 16\<rparr>"
  have r: "readUInt8 16 b = Inr (take 16 (drop (offset b) (buffer b)), ?b1)"
    using Suc.prems by (simp add: readUInt8_ok)
  have room: "offset ?b1 + 16 * n \<le> length (buffer ?b1)"
    using Suc.prems by simp
  show ?case
    by (simp add: r Suc.IH [OF room] add.assoc)
qed

lemma groups_loop_frame:
  "groups_loop k b es = Inr (es', b') \<Longrightarrow>
   buffer b' = buffer b \<and> endian b' = endian b \<and> offset b \<le> offset b'"
proof (induction k b es rule: groups_loop.induct)
  case (1 keysCount encoding entries)
  show ?case
  proof (cases "keysCount = 0")
    case True
    then show ?thesis
      using "1.prems" by (subst (asm) groups_loop.simps) simp
  next
    case False
    from False "1.prems" obtain entry e1 k' e2 where
      g: "read_group keysCount encoding = Inr (entry, e1)" and
      r: "readUInt16 None e1 = Inr (k', e2)" and
      l: "groups_loop k' e2 (entries @ [entry]) = Inr (es', b')"
      by (subst (asm) groups_loop.simps) (auto split: sum.splits)
    from "1.IH" [OF False g refl r refl l]
      read_group_frame [OF g] readUInt16_frame [OF r]
    show ?thesis by simp
  qed
qed

lemma read_chunk_frame:
  assumes "read_chunk b es = Inr (es', b')"
  shows "buffer b' = buffer b \<and> endian b' = endian b \<and> offset b + 2 \<le> offset b'"
proof -
  from assms obtain k e1 where
    r: "readUInt16 None b = Inr (k, e1)" and g: "groups_loop k e1 es = Inr (es', b')"
    unfolding read_chunk_def by (auto split: sum.splits)
  from readUInt16_frame [OF r] groups_loop_frame [OF g]
  show ?thesis by simp
qed

lemma js_rem_nonneg: "0 \<le> a \<Longrightarrow> js_rem a 4096 = a mod 4096"
  by (cases "a = 0") (simp_all add: js_rem_def)

lemma align_chunk_next:
  assumes "align_chunk cs e1 = Inr e2" and "cs \<le> offset e1"
  shows "offset e1 < offset e2 \<and> offset e2 \<le> offset e1 + 4096 \<and>
         (offset e2 - cs) mod 4096 = 0 \<and> buffer e2 = buffer e1 \<and> endian e2 = endian e1"
proof -
  define d where "d = int (offset e1) - int cs"
  have d0: "0 \<le> d" using assms(2) by (simp add: d_def)
  define r where "r = 4096 - d mod 4096"
  have rr: "0 < r" "r \<le> 4096" by (simp_all add: r_def)
  have rem: "4096 - js_rem (int (offset e1) - int cs) 4096 = r"
    using d0 by (simp add: js_rem_nonneg d_def r_def)
  have mv: "move r e1 = Inr e2"
    using assms(1) rr unfolding align_chunk_def rem by (simp add: Let_def)
  then have e2: "e2 = e1\<lparr>offset := nat (int (offset e1) + r)\<rparr>"
    by (auto simp: move_def Let_def split: if_splits)
  have off: "int (offset e2) = int (offset e1) + r"
    using rr by (simp add: e2)
  have "(int (offset e2) - int cs) mod 4096 = 0"
  proof -
    have "int (offset e2) - int cs = d + (4096 - d mod 4096)"
      by (simp add: off d_def r_def)
    also have "\<dots> = 4096 * (d div 4096 + 1)"
      by (simp add: algebra_simps minus_mod_eq_mult_div [symmetric])
    finally show ?thesis by simp
  qed
  moreover have "cs \<le> offset e2" using off rr assms(2) by linarith
  ultimately have "int (offset e2 - cs) mod 4096 = 0"
    by (simp add: of_nat_diff)
  then have "int ((offset e2 - cs) mod 4096) = 0"
    by (simp add: zmod_int)
  then have m: "(offset e2 - cs) mod 4096 = 0"
    by simp
  have "offset e1 < offset e2" "offset e2 \<le> offset e1 + 4096"
    using off rr by linarith+
  with m show ?thesis by (simp add: e2)
qed

lemma chunk_body_step:
  assumes "chunk_body cs enc es = Inr (es', e2)" and "cs \<le> offset enc"
  shows "\<exists>e1. read_chunk enc es = Inr (es', e1) \<and> align_chunk cs e1 = Inr e2 \<and>
              offset e1 < offset e2 \<and> offset e2 \<le> offset e1 + 4096 \<and>
              (offset e2 - cs) mod 4096 = 0 \<and> cs \<le> offset e2"
proof -
  from assms(1) obtain e1 where
    rc: "read_chunk enc es = Inr (es', e1)" and al: "align_chunk cs e1 = Inr e2"
    unfolding chunk_body_def by (auto split: sum.splits)
  have le: "cs \<le> offset e1"
    using read_chunk_frame [OF rc] assms(2) by simp
  from align_chunk_next [OF al le]
  have "read_chunk enc es = Inr (es', e1) \<and> align_chunk cs e1 = Inr e2 \<and>
        offset e1 < offset e2 \<and> offset e2 \<le> offset e1 + 4096 \<and>
        (offset e2 - cs) mod 4096 = 0 \<and> cs \<le> offset e2"
    using rc al le by simp
  then show ?thesis ..
qed

text \<open>
  A run of the chunk loop is a chain of states, each a pair of the entries so far and
  the cursor: one state per chunk start, and the last one when the loop is left.
\<close>

lemma chunks_loop_chain:
  assumes "chunks_loop cs n enc es = Inr es'" and "cs \<le> offset enc"
  shows "\<exists>states. length states = Suc n \<and> states ! 0 = (es, enc) \<and>
           fst (states ! n) = es' \<and>
           (\<forall>i < n.
              \<exists>e1. read_chunk (snd (states ! i)) (fst (states ! i))
                      = Inr (fst (states ! Suc i), e1) \<and>
                   align_chunk cs e1 = Inr (snd (states ! Suc i)) \<and>
                   offset e1 < offset (snd (states ! Suc i)) \<and>
                   offset (snd (states ! Suc i)) \<le> offset e1 + 4096 \<and>
                   (offset (snd (states ! Suc i)) - cs) mod 4096 = 0)"
  using assms
proof (induction n arbitrary: enc es)
  case 0
  then have "length [(es, enc)] = Suc 0 \<and> [(es, enc)] ! 0 = (es, enc) \<and>
             fst ([(es, enc)] ! 0) = es'"
    by simp
  then show ?case by (intro exI [of _ "[(es, enc)]"]) simp
next
  case (Suc n)
  from Suc.prems(1) obtain es1 e2 where
    cb: "chunk_body cs enc es = Inr (es1, e2)" and
    l: "chunks_loop cs n e2 es1 = Inr es'"
    by (auto split: sum.splits)
  from chunk_body_step [OF cb Suc.prems(2)] obtain e1 where
    st: "read_chunk enc es = Inr (es1, e1) \<and> align_chunk cs e1 = Inr e2 \<and>
         offset e1 < offset e2 \<and> offset e2 \<le> offset e1 + 4096 \<and>
         (offset e2 - cs) mod 4096 = 0 \<and> cs \<le> offset e2" ..
  then have le: "cs \<le> offset e2" by simp
  from Suc.IH [OF l le] obtain states where
    len: "length states = Suc n" and hd: "states ! 0 = (es1, e2)" and
    lst: "fst (states ! n) = es'" and
    ch: "\<forall>i < n.
              \<exists>e1. read_chunk (snd (states ! i)) (fst (states ! i))
                      = Inr (fst (states ! Suc i), e1) \<and>
                   align_chunk cs e1 = Inr (snd (states ! Suc i)) \<and>
                   offset e1 < offset (snd (states ! Suc i)) \<and>
                   offset (snd (states ! Suc i)) \<le> offset e1 + 4096 \<and>
                   (offset (snd (states ! Suc i)) - cs) mod 4096 = 0"
    by auto
  let ?states = "(es, enc) # states"
  have step: "\<exists>e1. read_chunk (snd (?states ! i)) (fst (?states ! i))
                      = Inr (fst (?states ! Suc i), e1) \<and>
                   align_chunk cs e1 = Inr (snd (?states ! Suc i)) \<and>
                   offset e1 < offset (snd (?states ! Suc i)) \<and>
                   offset (snd (?states ! Suc i)) \<le> offset e1 + 4096 \<and>
                   (offset (snd (?states ! Suc i)) - cs) mod 4096 = 0"
    if "i < Suc n" for i
  proof (cases i)
    case 0
    have "read_chunk enc es = Inr (es1, e1) \<and> align_chunk cs e1 = Inr e2 \<and>
          offset e1 < offset e2 \<and> offset e2 \<le> offset e1 + 4096 \<and>
          (offset e2 - cs) mod 4096 = 0"
      using st by simp
    then show ?thesis using 0 hd by (intro exI [of _ e1]) simp
  next
    case (Suc j)
    then have "j < n" using that by simp
    with ch show ?thesis using Suc by simp
  qed
  have "length ?states = Suc (Suc n) \<and> ?states ! 0 = (es, enc) \<and>
        fst (?states ! Suc n) = es'"
    using len lst by simp
  with step show ?case by (intro exI [of _ ?states]) simp
qed

text \<open>The example table, read step by step.\<close>

lemma hex_zeros: "byteArrayToHexString (replicate 16 0) = ''00000000000000000000000000000000''"
  by code_simp

lemma be_value_snoc: "be_value (bs @ [b]) = be_value bs * 256 + unat b"
  by (simp add: be_value_def)

lemma be_value_zeros: "be_value (replicate n 0) = 0"
  by (induction n) (simp_all add: be_value_def)

lemma enc_length: "length (buffer example_encoding) = 8247"
  by (simp add: example_encoding_def new_Bufo_def)

lemma enc_endian: "endian example_encoding = ENDIAN_LITTLE"
  by (simp add: example_encoding_def new_Bufo_def)

lemma enc_slices:
  "take 4 (drop 9 (buffer example_encoding)) = replicate 3 0 @ [1]"
  "take 4 (drop 18 (buffer example_encoding)) = replicate 4 0"
  "take 2 (drop 54 (buffer example_encoding)) = [245, 0]"
  "take 2 (drop 3996 (buffer example_encoding)) = [1, 0]"
  "take 2 (drop 4034 (buffer example_encoding)) = [1, 0]"
  "take 2 (drop 4072 (buffer example_encoding)) = [1, 0]"
  "take 2 (drop 4110 (buffer example_encoding)) = [1, 0]"
  "take 2 (drop 4148 (buffer example_encoding)) = replicate 2 0"
  by (simp_all add: example_encoding_def new_Bufo_def)

lemma enc_zero_slices:
  "take 4 (drop 56 (buffer example_encoding)) = replicate 4 0"
  "take 16 (drop 60 (buffer example_encoding)) = replicate 16 0"
  "take 16 (drop 76 (buffer example_encoding)) = replicate 16 0"
  "take 4 (drop 3998 (buffer example_encoding)) = replicate 4 0"
  "take 16 (drop 4002 (buffer example_encoding)) = replicate 16 0"
  "take 16 (drop 4018 (buffer example_encoding)) = replicate 16 0"
  "take 4 (drop 4036 (buffer example_encoding)) = replicate 4 0"
  "take 16 (drop 4040 (buffer example_encoding)) = replicate 16 0"
  "take 16 (drop 4056 (buffer example_encoding)) = replicate 16 0"
  "take 4 (drop 4074 (buffer example_encoding)) = replicate 4 0"
  "take 16 (drop 4078 (buffer example_encoding)) = replicate 16 0"
  "take 16 (drop 4094 (buffer example_encoding)) = replicate 16 0"
  "take 4 (drop 4112 (buffer example_encoding)) = replicate 4 0"
  "take 16 (drop 4116 (buffer example_encoding)) = replicate 16 0"
  "take 16 (drop 4132 (buffer example_encoding)) = replicate 16 0"
  by (simp_all add: example_encoding_def new_Bufo_def)

lemma enc_header:
  "encoding_header example_encoding = Inr (1, example_encoding\<lparr>offset := 54\<rparr>)"
  by (simp add: encoding_header_def seek_def move_def byteLength_def enc_length
        readInt32_ok order_of_def enc_slices signed_value_def unsigned_value_def
        be_value_snoc be_value_zeros)

lemma enc_key_counts:
  "readUInt16 None (example_encoding\<lparr>offset := 54\<rparr>) = Inr (245, example_encoding\<lparr>offset := 56\<rparr>)"
  "readUInt16 None (example_encoding\<lparr>offset := 3996\<rparr>) = Inr (1, example_encoding\<lparr>offset := 3998\<rparr>)"
  "readUInt16 None (example_encoding\<lparr>offset := 4034\<rparr>) = Inr (1, example_encoding\<lparr>offset := 4036\<rparr>)"
  "readUInt16 None (example_encoding\<lparr>offset := 4072\<rparr>) = Inr (1, example_encoding\<lparr>offset := 4074\<rparr>)"
  "readUInt16 None (example_encoding\<lparr>offset := 4110\<rparr>) = Inr (1, example_encoding\<lparr>offset := 4112\<rparr>)"
  "readUInt16 None (example_encoding\<lparr>offset := 4148\<rparr>) = Inr (0, example_encoding\<lparr>offset := 4150\<rparr>)"
  by (simp_all add: readUInt16_def readUInt8_ok enc_length enc_endian order_of_def enc_slices
        unsigned_value_def be_value_def be_value_zeros [unfolded be_value_def])

lemma enc_groups:
  "read_group 245 (example_encoding\<lparr>offset := 56\<rparr>) = Inr (zero_entry, example_encoding\<lparr>offset := 3996\<rparr>)"
  "read_group 1 (example_encoding\<lparr>offset := 3998\<rparr>) = Inr (zero_entry, example_encoding\<lparr>offset := 4034\<rparr>)"
  "read_group 1 (example_encoding\<lparr>offset := 4036\<rparr>) = Inr (zero_entry, example_encoding\<lparr>offset := 4072\<rparr>)"
  "read_group 1 (example_encoding\<lparr>offset := 4074\<rparr>) = Inr (zero_entry, example_encoding\<lparr>offset := 4110\<rparr>)"
  "read_group 1 (example_encoding\<lparr>offset := 4112\<rparr>) = Inr (zero_entry, example_encoding\<lparr>offset := 4148\<rparr>)"
  by (simp_all add: read_group_def readUInt32_ok readUInt8_ok keys_loop_ok enc_length
        order_of_def enc_zero_slices unsigned_value_def be_value_zeros hex_zeros zero_entry_def)


lemma enc_chunk:
  "read_chunk (example_encoding\<lparr>offset := 54\<rparr>) [] =
     Inr ([zero_entry, zero_entry, zero_entry, zero_entry, zero_entry],
          example_encoding\<lparr>offset := 4150\<rparr>)"
  unfolding read_chunk_def
  apply (simp add: enc_key_counts)
  apply (subst groups_loop.simps, simp add: enc_groups enc_key_counts)
  apply (subst groups_loop.simps, simp add: enc_groups enc_key_counts)
  apply (subst groups_loop.simps, simp add: enc_groups enc_key_counts)
  apply (subst groups_loop.simps, simp add: enc_groups enc_key_counts)
  apply (subst groups_loop.simps, simp add: enc_groups enc_key_counts)
  apply (subst groups_loop.simps, simp)
  done

lemma enc_align:
  "align_chunk 54 (example_encoding\<lparr>offset := 4150\<rparr>) =
     Inr (example_encoding\<lparr>offset := 8246\<rparr>)"
  by (simp add: align_chunk_def js_rem_def move_def byteLength_def enc_length)

lemma enc_parse:
  "parseEncodingFile example_encoding =
     Inr [zero_entry, zero_entry, zero_entry, zero_entry, zero_entry]"
  by (simp add: parseEncodingFile_def enc_header chunk_body_def enc_chunk enc_align)

section \<open>The encoding table\<close>

text \<open>
  C4. A parse of the encoding table that returns is the header followed by
  \<open>numEntriesA\<close> chunks, one after the other: a chunk is read up to and including its
  zero key count, and the cursor then moves forward to the next position whose distance
  from \<open>chunkStart\<close> (the cursor the header leaves, the spec's chunkTableOrigin) is a
  multiple of 4096. The move is always forward, by at least one byte and at most 4096,
  so a cursor that already stands on a boundary after the terminator goes on by a whole
  4096 bytes. The next chunk is read from that position, and the entries of the last
  state are the ones returned. The witness is a parse whose only chunk ends on a
  boundary: the terminator ends at distance 4096 and the cursor moves on to distance 8192.
\<close>

theorem parseEncodingFile_chunks_aligned:
  assumes "parseEncodingFile encoding = Inr entries"
  shows "\<exists>numEntriesA e0 states.
           encoding_header encoding = Inr (numEntriesA, e0) \<and>
           length states = Suc (nat numEntriesA) \<and>
           states ! 0 = ([], e0) \<and>
           fst (states ! nat numEntriesA) = entries \<and>
           (\<forall>i < nat numEntriesA.
              \<exists>e1. read_chunk (snd (states ! i)) (fst (states ! i))
                      = Inr (fst (states ! Suc i), e1) \<and>
                   align_chunk (offset e0) e1 = Inr (snd (states ! Suc i)) \<and>
                   offset e1 < offset (snd (states ! Suc i)) \<and>
                   offset (snd (states ! Suc i)) \<le> offset e1 + 4096 \<and>
                   (offset (snd (states ! Suc i)) - offset e0) mod 4096 = 0)"
proof -
  from assms obtain numEntriesA e0 where
    h: "encoding_header encoding = Inr (numEntriesA, e0)" and
    l: "chunks_loop (offset e0) (nat numEntriesA) e0 [] = Inr entries"
    unfolding parseEncodingFile_def by (auto simp: Let_def split: sum.splits)
  have "offset e0 \<le> offset e0" by simp
  from chunks_loop_chain [OF l this] obtain states where
    "length states = Suc (nat numEntriesA) \<and> states ! 0 = ([], e0) \<and>
     fst (states ! nat numEntriesA) = entries \<and>
     (\<forall>i < nat numEntriesA.
        \<exists>e1. read_chunk (snd (states ! i)) (fst (states ! i))
                = Inr (fst (states ! Suc i), e1) \<and>
             align_chunk (offset e0) e1 = Inr (snd (states ! Suc i)) \<and>
             offset e1 < offset (snd (states ! Suc i)) \<and>
             offset (snd (states ! Suc i)) \<le> offset e1 + 4096 \<and>
             (offset (snd (states ! Suc i)) - offset e0) mod 4096 = 0)" ..
  with h show ?thesis by (intro exI [of _ numEntriesA] exI [of _ e0] exI [of _ states]) simp
qed

theorem parseEncodingFile_chunks_aligned_witness:
  "encoding_header example_encoding = Inr (1, example_encoding\<lparr>offset := 54\<rparr>) \<and>
   read_chunk (example_encoding\<lparr>offset := 54\<rparr>) [] =
     Inr ([zero_entry, zero_entry, zero_entry, zero_entry, zero_entry],
          example_encoding\<lparr>offset := 4150\<rparr>) \<and>
   (4150 - 54) mod 4096 = (0::nat) \<and>
   align_chunk 54 (example_encoding\<lparr>offset := 4150\<rparr>) =
     Inr (example_encoding\<lparr>offset := 8246\<rparr>) \<and>
   (8246 - 54) mod 4096 = (0::nat) \<and>
   parseEncodingFile example_encoding =
     Inr [zero_entry, zero_entry, zero_entry, zero_entry, zero_entry]"
  using parseEncodingFile_chunks_aligned [OF enc_parse]
  by (simp add: enc_header enc_chunk enc_align enc_parse)

text \<open>
  C7. A group whose key count k is positive, with its 20 + 16 * k bytes in the buffer:
  the parser reads the 4-byte big-endian file size, the 16-byte content hash and the k
  keys of 16 bytes. The entry it builds holds the hash, the size and the first key only;
  the cursor stands after all k keys. The loop appends exactly that one entry and goes on
  with the key count read next.
\<close>

theorem read_group_first_key:
  assumes "0 < k"
      and "offset b + 20 + 16 * k \<le> length (buffer b)"
  shows "read_group (int k) b =
           Inr (\<lparr>Hash_enc = byteArrayToHexString (take 16 (drop (offset b + 4) (buffer b))),
                 Key_enc = Some (byteArrayToHexString (take 16 (drop (offset b + 20) (buffer b)))),
                 Size_enc = int (unsigned_value ENDIAN_BIG (take 4 (drop (offset b) (buffer b))))\<rparr>,
                b\<lparr>offset := offset b + 20 + 16 * k\<rparr>) \<and>
         groups_loop (int k) b entries =
           (case readUInt16 None (b\<lparr>offset := offset b + 20 + 16 * k\<rparr>) of
              Inl err \<Rightarrow> Inl err
            | Inr (k', b') \<Rightarrow>
                groups_loop k' b'
                  (entries @
                   [\<lparr>Hash_enc = byteArrayToHexString (take 16 (drop (offset b + 4) (buffer b))),
                     Key_enc = Some (byteArrayToHexString (take 16 (drop (offset b + 20) (buffer b)))),
                     Size_enc = int (unsigned_value ENDIAN_BIG (take 4 (drop (offset b) (buffer b))))\<rparr>]))"
proof -
  let ?b1 = "b\<lparr>offset := offset b + 4\<rparr>"
  let ?b2 = "b\<lparr>offset := offset b + 20\<rparr>"
  have r1: "readUInt32 (Some ENDIAN_BIG) b =
              Inr (int (unsigned_value ENDIAN_BIG (take 4 (drop (offset b) (buffer b)))), ?b1)"
    using assms(2) by (simp add: readUInt32_ok order_of_def)
  have r2: "readUInt8 16 ?b1 = Inr (take 16 (drop (offset b + 4) (buffer b)), ?b2)"
    using assms(2) by (simp add: readUInt8_ok)
  have r3: "keys_loop 0 k ?b2 None =
              Inr (Some (byteArrayToHexString (take 16 (drop (offset b + 20) (buffer b)))),
                   b\<lparr>offset := offset b + 20 + 16 * k\<rparr>)"
    using assms by (simp add: keys_loop_ok)
  have g: "read_group (int k) b =
           Inr (\<lparr>Hash_enc = byteArrayToHexString (take 16 (drop (offset b + 4) (buffer b))),
                 Key_enc = Some (byteArrayToHexString (take 16 (drop (offset b + 20) (buffer b)))),
                 Size_enc = int (unsigned_value ENDIAN_BIG (take 4 (drop (offset b) (buffer b))))\<rparr>,
                b\<lparr>offset := offset b + 20 + 16 * k\<rparr>)"
    by (simp add: read_group_def r1 r2 r3)
  have "int k \<noteq> 0" using assms(1) by simp
  then show ?thesis
    by (subst groups_loop.simps) (simp add: g)
qed

theorem read_group_first_key_witness:
  "read_group 2
     (new_Bufo ENDIAN_LITTLE
        [0, 0, 1, 0,
         0xC0, 0xC0, 0xC0, 0xC0, 0xC0, 0xC0, 0xC0, 0xC0,
         0xC0, 0xC0, 0xC0, 0xC0, 0xC0, 0xC0, 0xC0, 0xC0,
         0x1A, 0x1A, 0x1A, 0x1A, 0x1A, 0x1A, 0x1A, 0x1A,
         0x1A, 0x1A, 0x1A, 0x1A, 0x1A, 0x1A, 0x1A, 0x1A,
         0x2B, 0x2B, 0x2B, 0x2B, 0x2B, 0x2B, 0x2B, 0x2B,
         0x2B, 0x2B, 0x2B, 0x2B, 0x2B, 0x2B, 0x2B, 0x2B,
         0, 0])
   = Inr (\<lparr>Hash_enc = ''c0c0c0c0c0c0c0c0c0c0c0c0c0c0c0c0'',
           Key_enc = Some ''1a1a1a1a1a1a1a1a1a1a1a1a1a1a1a1a'',
           Size_enc = 256\<rparr>,
          (new_Bufo ENDIAN_LITTLE
             [0, 0, 1, 0,
              0xC0, 0xC0, 0xC0, 0xC0, 0xC0, 0xC0, 0xC0, 0xC0,
              0xC0, 0xC0, 0xC0, 0xC0, 0xC0, 0xC0, 0xC0, 0xC0,
              0x1A, 0x1A, 0x1A, 0x1A, 0x1A, 0x1A, 0x1A, 0x1A,
              0x1A, 0x1A, 0x1A, 0x1A, 0x1A, 0x1A, 0x1A, 0x1A,
              0x2B, 0x2B, 0x2B, 0x2B, 0x2B, 0x2B, 0x2B, 0x2B,
              0x2B, 0x2B, 0x2B, 0x2B, 0x2B, 0x2B, 0x2B, 0x2B,
              0, 0])\<lparr>offset := 52\<rparr>)"
  using read_group_first_key
    [of 2 "new_Bufo ENDIAN_LITTLE
        [0, 0, 1, 0,
         0xC0, 0xC0, 0xC0, 0xC0, 0xC0, 0xC0, 0xC0, 0xC0,
         0xC0, 0xC0, 0xC0, 0xC0, 0xC0, 0xC0, 0xC0, 0xC0,
         0x1A, 0x1A, 0x1A, 0x1A, 0x1A, 0x1A, 0x1A, 0x1A,
         0x1A, 0x1A, 0x1A, 0x1A, 0x1A, 0x1A, 0x1A, 0x1A,
         0x2B, 0x2B, 0x2B, 0x2B, 0x2B, 0x2B, 0x2B, 0x2B,
         0x2B, 0x2B, 0x2B, 0x2B, 0x2B, 0x2B, 0x2B, 0x2B,
         0, 0]" "[]"]
  by (simp add: new_Bufo_def unsigned_value_def be_value_def
        byteArrayToHexString_def byteToHex_def hex_digit_def)

section \<open>Facts about the root table\<close>

lemma array_set_end: "array_set xs (length xs) v = xs @ [Some v]"
  by (simp add: array_set_def)

lemma array_get_set:
  "array_get (array_set xs i v) j = (if j = i then Some v else array_get xs j)"
  by (auto simp: array_get_def array_set_def nth_append)

lemma set_pushed: "set (pushed es) = {e. Some e \<in> set es \<and> is_RootEntry e}"
  by (auto simp: pushed_def)

lemma seek_0: "0 < byteLength b \<Longrightarrow> seek 0 b = Inr (b\<lparr>offset := 0\<rparr>)"
  by (simp add: seek_def)

lemma seek_0_result: "seek 0 b = Inr b' \<Longrightarrow> b' = b\<lparr>offset := 0\<rparr>"
  by (auto simp: seek_def split: if_splits)

lemma readUInt32_value:
  "readUInt32 e b = Inr (v, b') \<Longrightarrow>
   v = int (unsigned_value (order_of e b) (take 4 (drop (offset b) (buffer b))))"
  by (auto simp: readUInt32_def readUInt8_def split: sum.splits if_splits)

lemma ids_loop_decode:
  assumes "\<forall>d \<in> set ds. length d = 4"
      and "drop (offset b) (buffer b) = concat ds @ rest"
      and "i = length es"
  shows "ids_loop t i (length ds) f b es =
           Inr (es @ map (\<lambda>x. Some (IdSlot t x))
                       (decode_ids f (map (signed_value (endian b)) ds)),
                b\<lparr>offset := offset b + 4 * length ds\<rparr>)"
  using assms
proof (induction ds arbitrary: i f b es)
  case Nil
  then show ?case by simp
next
  case (Cons d ds)
  have len: "length d = 4" using Cons.prems(1) by simp
  have dr: "drop (offset b) (buffer b) = d @ concat ds @ rest"
    using Cons.prems(2) by simp
  have room: "offset b + 4 \<le> length (buffer b)"
  proof -
    have "4 \<le> length (drop (offset b) (buffer b))" using dr len by simp
    then show ?thesis by simp
  qed
  let ?b1 = "b\<lparr>offset := offset b + 4\<rparr>"
  have tk: "take 4 (drop (offset b) (buffer b)) = d"
    using dr len by simp
  have r: "readInt32 None b = Inr (signed_value (endian b) d, ?b1)"
    using room tk by (simp add: readInt32_ok order_of_def)
  have rest': "drop (offset ?b1) (buffer ?b1) = concat ds @ rest"
  proof -
    have "drop (offset b + 4) (buffer b) = drop 4 (drop (offset b) (buffer b))"
      by (simp add: add.commute)
    then show ?thesis using dr len by simp
  qed
  let ?id = "f + signed_value (endian b) d"
  have ih: "ids_loop t (i + 1) (length ds) (?id + 1) ?b1 (es @ [Some (IdSlot t ?id)]) =
      Inr ((es @ [Some (IdSlot t ?id)]) @
             map (\<lambda>x. Some (IdSlot t x))
               (decode_ids (?id + 1) (map (signed_value (endian ?b1)) ds)),
           ?b1\<lparr>offset := offset ?b1 + 4 * length ds\<rparr>)"
    using Cons.prems(1,3) rest' by (intro Cons.IH) simp_all
  show ?case
    using ih Cons.prems(3) by (simp add: r Let_def array_set_end)
qed

lemma ids_loop_slots:
  "ids_loop t i n f b es = Inr (es', b') \<Longrightarrow> i = length es \<Longrightarrow>
   \<exists>ids. length ids = n \<and> es' = es @ map (\<lambda>x. Some (IdSlot t x)) ids"
proof (induction n arbitrary: i f b es)
  case 0
  then show ?case by simp
next
  case (Suc n)
  from Suc.prems(1) obtain delta r1 where
    r: "readInt32 None b = Inr (delta, r1)" and
    l: "ids_loop t (i + 1) n (f + delta + 1) r1 (array_set es i (IdSlot t (f + delta)))
          = Inr (es', b')"
    by (auto simp: Let_def split: sum.splits)
  have a: "array_set es i (IdSlot t (f + delta)) = es @ [Some (IdSlot t (f + delta))]"
    using Suc.prems(2) by (simp add: array_set_def)
  from Suc.IH [OF l [unfolded a]] Suc.prems(2)
  obtain ids where "length ids = n"
    and "es' = (es @ [Some (IdSlot t (f + delta))]) @ map (\<lambda>x. Some (IdSlot t x)) ids"
    by auto
  then have "length ((f + delta) # ids) = Suc n \<and>
             es' = es @ map (\<lambda>x. Some (IdSlot t x)) ((f + delta) # ids)"
    by simp
  then show ?case by blast
qed

lemma records_loop_pushes:
  "records_loop i n b m es = Inr (es', m', b') \<Longrightarrow>
   (\<forall>j. i \<le> j \<and> j < i + n \<longrightarrow> (\<exists>f. array_get es j = Some (IdSlot t f))) \<Longrightarrow>
   \<exists>more. es' = es @ more \<and> (\<forall>x \<in> set more. \<exists>h f k. x = Some (RootEntry h f k t))"
proof (induction n arbitrary: i b m es)
  case 0
  then show ?case by simp
next
  case (Suc n)
  from Suc.prems(2) obtain f where f: "array_get es i = Some (IdSlot t f)"
    by (metis le_refl less_add_Suc1 add_Suc_right)
  from Suc.prems(1) obtain kb r1 hb r2 where
    r1: "readUInt8 16 b = Inr (kb, r1)" and r2: "readUInt8 8 r1 = Inr (hb, r2)"
    by (auto split: sum.splits)
  let ?h = "byteArrayToHexString hb" and ?k = "byteArrayToHexString kb"
  let ?new = "Some (RootEntry ?h f ?k t)"
  show ?case
  proof (cases "m f \<noteq> None \<and> m f \<noteq> Some ?h")
    case True
    then have l: "records_loop (i + 1) n r2 m es = Inr (es', m', b')"
      using Suc.prems(1) by (simp add: r1 r2 f Let_def)
    have "\<forall>j. i + 1 \<le> j \<and> j < i + 1 + n \<longrightarrow> (\<exists>f. array_get es j = Some (IdSlot t f))"
      using Suc.prems(2) by simp
    from Suc.IH [OF l this] show ?thesis .
  next
    case False
    then have l: "records_loop (i + 1) n r2 (m(f \<mapsto> ?h)) (es @ [?new]) = Inr (es', m', b')"
      using Suc.prems(1) by (auto simp add: r1 r2 f Let_def split: if_splits)
    have "\<forall>j. i + 1 \<le> j \<and> j < i + 1 + n \<longrightarrow>
            (\<exists>f. array_get (es @ [?new]) j = Some (IdSlot t f))"
    proof (intro allI impI)
      fix j assume j: "i + 1 \<le> j \<and> j < i + 1 + n"
      then have "i \<le> j \<and> j < i + Suc n" by simp
      with Suc.prems(2) have "\<exists>f. array_get es j = Some (IdSlot t f)" by blast
      then obtain g where g: "array_get es j = Some (IdSlot t g)" ..
      then have "j < length es" by (auto simp: array_get_def split: if_splits)
      then have "array_get (es @ [?new]) j = array_get es j"
        by (simp add: array_get_def nth_append)
      with g show "\<exists>f. array_get (es @ [?new]) j = Some (IdSlot t f)" by simp
    qed
    from Suc.IH [OF l this] obtain more where
      "es' = (es @ [?new]) @ more" and "\<forall>x \<in> set more. \<exists>h f k. x = Some (RootEntry h f k t)"
      by blast
    then have "es' = es @ (?new # more) \<and>
               (\<forall>x \<in> set (?new # more). \<exists>h f k. x = Some (RootEntry h f k t))"
      by simp
    then show ?thesis by blast
  qed
qed

lemma parse_block_types:
  assumes "parse_block st b = Inr (es, st', b')"
  shows "typeIndex st' = typeIndex st + 1 \<and>
         types st' = array_set (types st) (typeIndex st + 1) (block_flags b) \<and>
         (\<forall>e \<in> set (pushed es). Type e = typeIndex st + 1)"
proof -
  from assms obtain count r1 cf r2 lf r3 es0 r4 m' where
    a: "readInt32 None b = Inr (count, r1)" and
    b: "readUInt32 None r1 = Inr (cf, r2)" and
    c: "readUInt32 None r2 = Inr (lf, r3)" and
    d: "ids_loop (typeIndex st + 1) 0 (nat count) 0 r3 [] = Inr (es0, r4)" and
    e: "records_loop 0 (nat count) r4 (rootIndex st) es0 = Inr (es, m', b')" and
    s: "st' = \<lparr>rootIndex = m', typeIndex = typeIndex st + 1,
               types = array_set (types st) (typeIndex st + 1)
                         \<lparr>LocaleFlag = lf, ContentFlag = cf\<rparr>\<rparr>"
    unfolding parse_block_def
    by (auto simp: Let_def split: sum.splits if_splits)
  note fa = readInt32_frame [OF a] and fb = readUInt32_frame [OF b]
  have cf: "cf = int (unsigned_value (endian b) (take 4 (drop (offset b + 4) (buffer b))))"
    using readUInt32_value [OF b] fa by (simp add: order_of_def)
  have lf: "lf = int (unsigned_value (endian b) (take 4 (drop (offset b + 8) (buffer b))))"
    using readUInt32_value [OF c] fa fb by (simp add: order_of_def add.commute)
  have fl: "\<lparr>LocaleFlag = lf, ContentFlag = cf\<rparr> = block_flags b"
    by (simp add: block_flags_def cf lf)
  from ids_loop_slots [OF d] obtain ids where
    ids: "length ids = nat count" "es0 = map (\<lambda>x. Some (IdSlot (typeIndex st + 1) x)) ids"
    by auto
  have "\<forall>j. 0 \<le> j \<and> j < 0 + nat count \<longrightarrow>
          (\<exists>f. array_get es0 j = Some (IdSlot (typeIndex st + 1) f))"
    using ids by (simp add: array_get_def)
  from records_loop_pushes [OF e this] obtain more where
    more: "es = es0 @ more"
      "\<forall>x \<in> set more. \<exists>h f k. x = Some (RootEntry h f k (typeIndex st + 1))"
    by blast
  have "\<forall>e \<in> set (pushed es). Type e = typeIndex st + 1"
  proof
    fix e assume "e \<in> set (pushed es)"
    then have "Some e \<in> set es" "is_RootEntry e" by (simp_all add: set_pushed)
    then have "Some e \<in> set more" using more(1) ids(2) by auto
    with more(2) show "Type e = typeIndex st + 1" by fastforce
  qed
  then show ?thesis using s fl by simp
qed

lemma blocks_loop_types:
  assumes "blocks_loop st b = Inr st'"
  shows "typeIndex st' = typeIndex st + length (blocks_trace st b) \<and>
         (\<forall>j. array_get (types st') j =
                (if typeIndex st < j \<and> j \<le> typeIndex st + length (blocks_trace st b)
                 then Some (block_flags (fst (blocks_trace st b ! (j - typeIndex st - 1))))
                 else array_get (types st) j)) \<and>
         (\<forall>k < length (blocks_trace st b).
            \<forall>e \<in> set (pushed (snd (blocks_trace st b ! k))). Type e = typeIndex st + k + 1)"
  using assms
proof (induction st b rule: blocks_loop.induct)
  case (1 st root)
  show ?case
  proof (cases "offset root < byteLength root")
    case False
    have "st' = st"
      using "1.prems" False by (subst (asm) blocks_loop.simps) simp
    moreover have "blocks_trace st root = []"
      using False by (subst blocks_trace.simps) simp
    ultimately show ?thesis by auto
  next
    case True
    with "1.prems" obtain es st1 root1 where
      pb: "parse_block st root = Inr (es, st1, root1)" and
      l: "blocks_loop st1 root1 = Inr st'"
      by (subst (asm) blocks_loop.simps) (auto split: sum.splits)
    have tr: "blocks_trace st root = (root, es) # blocks_trace st1 root1"
      using True pb by (subst blocks_trace.simps) simp
    note pt = parse_block_types [OF pb]
    note ih = "1.IH" [OF True pb refl refl l]
    let ?n = "typeIndex st" and ?tr1 = "blocks_trace st1 root1"
    have t1: "typeIndex st1 = ?n + 1" using pt by simp
    have A: "typeIndex st' = ?n + length (blocks_trace st root)"
      using ih t1 tr by simp
    have B: "array_get (types st') j =
                (if ?n < j \<and> j \<le> ?n + length (blocks_trace st root)
                 then Some (block_flags (fst (blocks_trace st root ! (j - ?n - 1))))
                 else array_get (types st) j)" for j
    proof -
      have g: "array_get (types st') j =
                (if ?n + 1 < j \<and> j \<le> ?n + 1 + length ?tr1
                 then Some (block_flags (fst (?tr1 ! (j - (?n + 1) - 1))))
                 else array_get (types st1) j)"
        using ih t1 by simp
      have s1: "array_get (types st1) j = (if j = ?n + 1 then Some (block_flags root)
                                            else array_get (types st) j)"
        using pt by (simp add: array_get_set)
      consider "j \<le> ?n" | "j = ?n + 1" | "?n + 1 < j"
        by linarith
      then show ?thesis
      proof cases
        case 1
        then show ?thesis using g s1 tr by simp
      next
        case 2
        then show ?thesis using g s1 tr by simp
      next
        case 3
        then have "j - ?n - 1 = Suc (j - (?n + 1) - 1)" by simp
        then show ?thesis using 3 g s1 tr by simp
      qed
    qed
    have C: "\<forall>e \<in> set (pushed (snd (blocks_trace st root ! k))). Type e = ?n + k + 1"
      if "k < length (blocks_trace st root)" for k
    proof (cases k)
      case 0
      then show ?thesis using pt tr by simp
    next
      case (Suc k')
      then have "k' < length ?tr1" using that tr by simp
      with ih have "\<forall>e \<in> set (pushed (snd (?tr1 ! k'))). Type e = typeIndex st1 + k' + 1"
        by blast
      then show ?thesis using Suc tr t1 by simp
    qed
    from A B C show ?thesis by blast
  qed
qed

section \<open>The root table\<close>

lemmas eval_cursor =
  new_Bufo_def byteLength_def readInt32_def readUInt32_def readUInt8_def order_of_def
  signed_value_def unsigned_value_def be_value_def
  byteArrayToHexString_def byteToHex_def hex_digit_def Let_def

lemmas eval_block =
  parse_block_def invalid_content_flag_def array_set_def array_get_def
  LOCALE_FLAG_None_def CONTENT_FLAG_None_def ToInt32_def bool_ToInt32_def
  CONTENT_FLAG_F00000008_def CONTENT_FLAG_F00000010_def
  CONTENT_FLAG_F20000000_def CONTENT_FLAG_NoCompression_def

lemma example_block1:
  "parse_block \<lparr>rootIndex = Map.empty, typeIndex = 0, types = []\<rparr> ((example_root h)\<lparr>offset := 0\<rparr>)
   = Inr ([Some (IdSlot 1 100),
           Some (RootEntry ''abababababababab'' 100 ''11111111111111111111111111111111'' 1)],
          \<lparr>rootIndex = [100 \<mapsto> ''abababababababab''], typeIndex = Suc 0,
           types = [None, Some \<lparr>LocaleFlag = 2, ContentFlag = 0\<rparr>]\<rparr>,
          (example_root h)\<lparr>offset := 40\<rparr>)"
  by (simp add: example_root_def eval_cursor eval_block)

lemma example_length: "byteLength ((example_root h)\<lparr>offset := k\<rparr>) = 80"
  by (simp add: example_root_def new_Bufo_def byteLength_def)

lemma example_seek: "seek 0 (example_root h) = Inr ((example_root h)\<lparr>offset := 0\<rparr>)"
  by (simp add: seek_def example_root_def new_Bufo_def byteLength_def)

lemma example_block2_differ:
  "parse_block \<lparr>rootIndex = [100 \<mapsto> ''abababababababab''], typeIndex = Suc 0,
                types = [None, Some \<lparr>LocaleFlag = 2, ContentFlag = 0\<rparr>]\<rparr>
               ((example_root 0xCD)\<lparr>offset := 40\<rparr>)
   = Inr ([Some (IdSlot 2 100)],
          \<lparr>rootIndex = [100 \<mapsto> ''abababababababab''], typeIndex = 2,
           types = [None, Some \<lparr>LocaleFlag = 2, ContentFlag = 0\<rparr>,
                    Some \<lparr>LocaleFlag = 4, ContentFlag = 8\<rparr>]\<rparr>,
          (example_root 0xCD)\<lparr>offset := 80\<rparr>)"
  by (simp add: example_root_def eval_cursor eval_block)

lemma example_block2_same:
  "parse_block \<lparr>rootIndex = [100 \<mapsto> ''abababababababab''], typeIndex = Suc 0,
                types = [None, Some \<lparr>LocaleFlag = 2, ContentFlag = 0\<rparr>]\<rparr>
               ((example_root 0xAB)\<lparr>offset := 40\<rparr>)
   = Inr ([Some (IdSlot 2 100),
           Some (RootEntry ''abababababababab'' 100 ''22222222222222222222222222222222'' 2)],
          \<lparr>rootIndex = [100 \<mapsto> ''abababababababab''], typeIndex = 2,
           types = [None, Some \<lparr>LocaleFlag = 2, ContentFlag = 0\<rparr>,
                    Some \<lparr>LocaleFlag = 4, ContentFlag = 8\<rparr>]\<rparr>,
          (example_root 0xAB)\<lparr>offset := 80\<rparr>)"
  by (simp add: example_root_def eval_cursor eval_block)

lemma example_loop_differ:
  "blocks_loop \<lparr>rootIndex = Map.empty, typeIndex = 0, types = []\<rparr>
     ((example_root 0xCD)\<lparr>offset := 0\<rparr>)
   = Inr \<lparr>rootIndex = [100 \<mapsto> ''abababababababab''], typeIndex = 2,
          types = [None, Some \<lparr>LocaleFlag = 2, ContentFlag = 0\<rparr>,
                   Some \<lparr>LocaleFlag = 4, ContentFlag = 8\<rparr>]\<rparr>"
  apply (subst blocks_loop.simps)
  apply (simp add: example_block1 example_length)
  apply (subst blocks_loop.simps)
  apply (simp add: example_block2_differ example_length)
  apply (subst blocks_loop.simps)
  apply (simp add: example_length)
  done

lemma example_loop_same:
  "blocks_loop \<lparr>rootIndex = Map.empty, typeIndex = 0, types = []\<rparr>
     ((example_root 0xAB)\<lparr>offset := 0\<rparr>)
   = Inr \<lparr>rootIndex = [100 \<mapsto> ''abababababababab''], typeIndex = 2,
          types = [None, Some \<lparr>LocaleFlag = 2, ContentFlag = 0\<rparr>,
                   Some \<lparr>LocaleFlag = 4, ContentFlag = 8\<rparr>]\<rparr>"
  apply (subst blocks_loop.simps)
  apply (simp add: example_block1 example_length)
  apply (subst blocks_loop.simps)
  apply (simp add: example_block2_same example_length)
  apply (subst blocks_loop.simps)
  apply (simp add: example_length)
  done

lemma example_blocks_differ:
  "root_blocks (example_root 0xCD) =
     [((example_root 0xCD)\<lparr>offset := 0\<rparr>,
       [Some (IdSlot 1 100),
        Some (RootEntry ''abababababababab'' 100 ''11111111111111111111111111111111'' 1)]),
      ((example_root 0xCD)\<lparr>offset := 40\<rparr>, [Some (IdSlot 2 100)])]"
  unfolding root_blocks_def
  apply (subst blocks_trace.simps)
  apply (simp add: example_block1 example_length)
  apply (subst blocks_trace.simps)
  apply (simp add: example_block2_differ example_length)
  apply (subst blocks_trace.simps)
  apply (simp add: example_length)
  done

lemma example_blocks_same:
  "root_blocks (example_root 0xAB) =
     [((example_root 0xAB)\<lparr>offset := 0\<rparr>,
       [Some (IdSlot 1 100),
        Some (RootEntry ''abababababababab'' 100 ''11111111111111111111111111111111'' 1)]),
      ((example_root 0xAB)\<lparr>offset := 40\<rparr>,
       [Some (IdSlot 2 100),
        Some (RootEntry ''abababababababab'' 100 ''22222222222222222222222222222222'' 2)])]"
  unfolding root_blocks_def
  apply (subst blocks_trace.simps)
  apply (simp add: example_block1 example_length)
  apply (subst blocks_trace.simps)
  apply (simp add: example_block2_same example_length)
  apply (subst blocks_trace.simps)
  apply (simp add: example_length)
  done

text \<open>
  C1. The claim: the \<open>Entries\<close> that \<open>parseRootFile\<close> returns are the entries the dedup
  rule accepted, in parse order. The blocks push the accepted entries to the array
  \<open>entries\<close> declared inside the loop body, which hides the array of the same name that is
  returned: whenever the parse succeeds, the returned \<open>Entries\<close> is empty. On two blocks
  that each declare FileDataID 100, the first block pushes its entry and the second pushes
  its own only when the hashes match, as the rule says, yet the returned \<open>Entries\<close> is
  empty in both cases.
\<close>

theorem parseRootFile_Entries_empty:
  "parseRootFile root = Inr r \<Longrightarrow> Entries r = []"
  unfolding parseRootFile_def
  by (auto simp: Let_def split: sum.splits)

theorem parseRootFile_Entries_empty_witness:
  "parseRootFile (example_root 0xCD) =
     Inr \<lparr>Entries = [],
          Types = [None, Some \<lparr>LocaleFlag = 2, ContentFlag = 0\<rparr>,
                   Some \<lparr>LocaleFlag = 4, ContentFlag = 8\<rparr>]\<rparr> \<and>
   map (pushed \<circ> snd) (root_blocks (example_root 0xCD)) =
     [[RootEntry ''abababababababab'' 100 ''11111111111111111111111111111111'' 1], []] \<and>
   parseRootFile (example_root 0xAB) =
     Inr \<lparr>Entries = [],
          Types = [None, Some \<lparr>LocaleFlag = 2, ContentFlag = 0\<rparr>,
                   Some \<lparr>LocaleFlag = 4, ContentFlag = 8\<rparr>]\<rparr> \<and>
   map (pushed \<circ> snd) (root_blocks (example_root 0xAB)) =
     [[RootEntry ''abababababababab'' 100 ''11111111111111111111111111111111'' 1],
      [RootEntry ''abababababababab'' 100 ''22222222222222222222222222222222'' 2]]"
proof -
  have d: "parseRootFile (example_root 0xCD) =
     Inr \<lparr>Entries = [],
          Types = [None, Some \<lparr>LocaleFlag = 2, ContentFlag = 0\<rparr>,
                   Some \<lparr>LocaleFlag = 4, ContentFlag = 8\<rparr>]\<rparr>"
    by (simp add: parseRootFile_def example_seek example_loop_differ)
  have s: "parseRootFile (example_root 0xAB) =
     Inr \<lparr>Entries = [],
          Types = [None, Some \<lparr>LocaleFlag = 2, ContentFlag = 0\<rparr>,
                   Some \<lparr>LocaleFlag = 4, ContentFlag = 8\<rparr>]\<rparr>"
    by (simp add: parseRootFile_def example_seek example_loop_same)
  from parseRootFile_Entries_empty [OF d] parseRootFile_Entries_empty [OF s] d s
  show ?thesis
    by (simp add: example_blocks_differ example_blocks_same pushed_def)
qed

text \<open>
  C2. The claim: a block is rejected exactly when its content flag is not zero and has no
  bit in common with F00000008, F00000010, F20000000 and NoCompression. In the source
  the comparison \<open>=== 0\<close> applies to the mask, not to the result of \<open>&\<close>; the mask is
  not zero, so the condition of the \<open>throw\<close> is false for every content flag. The content
  flag 1 is not zero and shares no bit with the mask, and the block that carries it is
  accepted.
\<close>

theorem parseRootFile_content_flag_unchecked:
  "\<not> invalid_content_flag contentFlag \<and>
   ToInt32 1 AND (CONTENT_FLAG_F00000008 OR CONTENT_FLAG_F00000010 OR
                  CONTENT_FLAG_NoCompression OR CONTENT_FLAG_F20000000) = 0 \<and>
   parseRootFile (new_Bufo ENDIAN_LITTLE [0, 0, 0, 0,  1, 0, 0, 0,  2, 0, 0, 0]) =
     Inr \<lparr>Entries = [], Types = [None, Some \<lparr>LocaleFlag = 2, ContentFlag = 1\<rparr>]\<rparr>"
proof -
  let ?c = "new_Bufo ENDIAN_LITTLE [0, 0, 0, 0,  1, 0, 0, 0,  2, 0, 0, 0]"
  have a: "\<not> invalid_content_flag contentFlag"
    by (simp add: invalid_content_flag_def bool_ToInt32_def CONTENT_FLAG_F00000008_def
          CONTENT_FLAG_F00000010_def CONTENT_FLAG_F20000000_def CONTENT_FLAG_NoCompression_def)
  have b: "ToInt32 1 AND (CONTENT_FLAG_F00000008 OR CONTENT_FLAG_F00000010 OR
                  CONTENT_FLAG_NoCompression OR CONTENT_FLAG_F20000000) = 0"
    by (simp add: ToInt32_def CONTENT_FLAG_F00000008_def
          CONTENT_FLAG_F00000010_def CONTENT_FLAG_F20000000_def CONTENT_FLAG_NoCompression_def)
  have p: "parse_block \<lparr>rootIndex = Map.empty, typeIndex = 0, types = []\<rparr> (?c\<lparr>offset := 0\<rparr>)
            = Inr ([], \<lparr>rootIndex = Map.empty, typeIndex = 1,
                        types = [None, Some \<lparr>LocaleFlag = 2, ContentFlag = 1\<rparr>]\<rparr>,
                   ?c\<lparr>offset := 12\<rparr>)"
    by (simp add: eval_cursor eval_block)
  have l: "blocks_loop \<lparr>rootIndex = Map.empty, typeIndex = 0, types = []\<rparr> (?c\<lparr>offset := 0\<rparr>)
            = Inr \<lparr>rootIndex = Map.empty, typeIndex = 1,
                   types = [None, Some \<lparr>LocaleFlag = 2, ContentFlag = 1\<rparr>]\<rparr>"
    apply (subst blocks_loop.simps)
    apply (simp add: p)
    apply (subst blocks_loop.simps)
    apply (simp add: new_Bufo_def byteLength_def)
    done
  have sk: "seek 0 ?c = Inr (?c\<lparr>offset := 0\<rparr>)"
    by (simp add: seek_def new_Bufo_def byteLength_def)
  have "parseRootFile ?c =
     Inr \<lparr>Entries = [], Types = [None, Some \<lparr>LocaleFlag = 2, ContentFlag = 1\<rparr>]\<rparr>"
    by (simp add: parseRootFile_def sk l)
  with a b show ?thesis by simp
qed

text \<open>
  C6. The first loop of a block, on a buffer that holds the deltas: the ids it writes are
  the deltas decoded with a running index that starts at 0, each id being the running
  index plus the delta and the next running index that id plus one. The slots are written
  in order and the cursor stands after the last delta. The witness is the block with the
  deltas 5, 0, 2, whose ids are 5, 6, 9.
\<close>

theorem ids_loop_delta_decoding:
  assumes "\<forall>d \<in> set ds. length d = 4"
      and "drop (offset root) (buffer root) = concat ds @ rest"
  shows "ids_loop t 0 (length ds) 0 root [] =
           Inr (map (\<lambda>x. Some (IdSlot t x))
                  (decode_ids 0 (map (signed_value (endian root)) ds)),
                root\<lparr>offset := offset root + 4 * length ds\<rparr>)"
  using ids_loop_decode [OF assms, of 0 "[]" t 0] by simp

theorem ids_loop_delta_decoding_witness:
  "ids_loop 1 0 3 0 (new_Bufo ENDIAN_LITTLE [5, 0, 0, 0,  0, 0, 0, 0,  2, 0, 0, 0]) [] =
     Inr ([Some (IdSlot 1 5), Some (IdSlot 1 6), Some (IdSlot 1 9)],
          (new_Bufo ENDIAN_LITTLE [5, 0, 0, 0,  0, 0, 0, 0,  2, 0, 0, 0])\<lparr>offset := 12\<rparr>) \<and>
   decode_ids 0 [5, 0, 2] = [5, 6, 9]"
  using ids_loop_delta_decoding
    [of "[[5, 0, 0, 0], [0, 0, 0, 0], [2, 0, 0, 0]]"
        "new_Bufo ENDIAN_LITTLE [5, 0, 0, 0,  0, 0, 0, 0,  2, 0, 0, 0]" "[]" 1]
  by (simp add: new_Bufo_def signed_value_def unsigned_value_def be_value_def Let_def
        numeral_3_eq_3)

text \<open>
  C10. In the result of a successful parse the array \<open>Types\<close> is 1-based: slot 0 is never
  assigned, slot k holds the flag pair read from the header of the k-th block for every k
  from 1 to the number of blocks, and no slot beyond that is assigned. Every entry a
  block pushes carries in \<open>Type\<close> the position of its block, so \<open>Types\<close> at that index is
  the flag pair of the block the entry came from. (The pushed entries are those of the
  blocks' own arrays.)
\<close>

theorem parseRootFile_types_one_based:
  assumes "parseRootFile root = Inr r"
  shows "array_get (Types r) 0 = None \<and>
         (\<forall>k. 1 \<le> k \<and> k \<le> length (root_blocks root) \<longrightarrow>
            array_get (Types r) k = Some (block_flags (fst (root_blocks root ! (k - 1)))) \<and>
            (\<forall>e \<in> set (pushed (snd (root_blocks root ! (k - 1)))).
               Type e = k \<and>
               array_get (Types r) (Type e) =
                 Some (block_flags (fst (root_blocks root ! (k - 1)))))) \<and>
         (\<forall>k > length (root_blocks root). array_get (Types r) k = None)"
proof -
  let ?st0 = "\<lparr>rootIndex = Map.empty, typeIndex = 0, types = []\<rparr>"
  from assms obtain st where
    l: "blocks_loop ?st0 (root\<lparr>offset := 0\<rparr>) = Inr st" and r: "Types r = types st"
    unfolding parseRootFile_def
    by (auto simp: Let_def split: sum.splits dest!: seek_0_result)
  note inv = blocks_loop_types [OF l, folded root_blocks_def]
  have g: "array_get (Types r) j =
             (if 0 < j \<and> j \<le> length (root_blocks root)
              then Some (block_flags (fst (root_blocks root ! (j - 1)))) else None)" for j
    using inv by (simp add: r array_get_def)
  have p: "\<forall>e \<in> set (pushed (snd (root_blocks root ! (k - 1)))). Type e = k"
    if "1 \<le> k \<and> k \<le> length (root_blocks root)" for k
  proof -
    have "k - 1 < length (root_blocks root)" using that by linarith
    with inv have "\<forall>e \<in> set (pushed (snd (root_blocks root ! (k - 1)))).
                     Type e = 0 + (k - 1) + 1"
      by simp
    then show ?thesis using that by simp
  qed
  show ?thesis using g p by simp
qed

theorem parseRootFile_types_one_based_witness:
  "parseRootFile (example_root 0xAB) =
     Inr \<lparr>Entries = [],
          Types = [None, Some \<lparr>LocaleFlag = 2, ContentFlag = 0\<rparr>,
                   Some \<lparr>LocaleFlag = 4, ContentFlag = 8\<rparr>]\<rparr> \<and>
   map (block_flags \<circ> fst) (root_blocks (example_root 0xAB)) =
     [\<lparr>LocaleFlag = 2, ContentFlag = 0\<rparr>, \<lparr>LocaleFlag = 4, ContentFlag = 8\<rparr>] \<and>
   map (map Type \<circ> pushed \<circ> snd) (root_blocks (example_root 0xAB)) = [[1], [2]]"
proof -
  have s: "parseRootFile (example_root 0xAB) =
     Inr \<lparr>Entries = [],
          Types = [None, Some \<lparr>LocaleFlag = 2, ContentFlag = 0\<rparr>,
                   Some \<lparr>LocaleFlag = 4, ContentFlag = 8\<rparr>]\<rparr>"
    by (simp add: parseRootFile_def example_seek example_loop_same)
  have f1: "block_flags ((example_root 0xAB)\<lparr>offset := 0\<rparr>) =
              \<lparr>LocaleFlag = 2, ContentFlag = 0\<rparr>"
    by (simp add: block_flags_def example_root_def new_Bufo_def unsigned_value_def be_value_def)
  have f2: "block_flags ((example_root 0xAB)\<lparr>offset := 40\<rparr>) =
              \<lparr>LocaleFlag = 4, ContentFlag = 8\<rparr>"
    by (simp add: block_flags_def example_root_def new_Bufo_def unsigned_value_def be_value_def)
  from parseRootFile_types_one_based [OF s] s
  show ?thesis
    by (simp add: example_blocks_same pushed_def f1 f2)
qed

end
